theory Spec2Isabelle
  imports Main "HOL-Library.Multiset"
begin

section \<open>Attestation aggregation by greedy maximum coverage\<close>

text \<open>
  A shallow embedding of \<^verbatim>\<open>shared/aggregation/attestations/maxcover.go\<close>.
  A Go call either returns or panics; \<open>None\<close> of an option type is the panic (an index out
  of range, a nil dereference, a bit operation on lists of different lengths). An \<open>error\<close>
  value is the Go \<^verbatim>\<open>error\<close> a function returns; \<^verbatim>\<open>errors.Wrap\<close> keeps the identity
  of the wrapped error, so a wrapped error is its sentinel.
\<close>

subsection \<open>Bit lists\<close>

text \<open>
  Modelled from the spec: the types \<^verbatim>\<open>bitfield.Bitlist\<close> and \<^verbatim>\<open>bitfield.Bitlist64\<close> belong to
  the go-bitfield library, which is not part of the sources at hand. A bit list
  is the ordered sequence of its flags (specification, section 3); the nil bit list and the
  bit list of length zero both have \<^verbatim>\<open>Len() == 0\<close> and are the empty sequence. The
  conversions between the byte form and the two bit list types reproduce the bits
  (specification, sections 4.1 and 6), so they are the identity here.
\<close>

type_synonym bitlist = "bool list"

definition Len :: "bitlist \<Rightarrow> nat" where
  "Len b = length b"

definition Count :: "bitlist \<Rightarrow> nat" where
  "Count b = length (filter (\<lambda>x. x) b)"

text \<open>\<^verbatim>\<open>Xor\<close>, \<^verbatim>\<open>Or\<close> and \<^verbatim>\<open>Contains\<close> panic on lists of different lengths.\<close>

definition Xor :: "bitlist \<Rightarrow> bitlist \<Rightarrow> bitlist option" where
  "Xor b c = (if Len b \<noteq> Len c then None else Some (map2 (\<lambda>x y. x \<noteq> y) b c))"

definition Or :: "bitlist \<Rightarrow> bitlist \<Rightarrow> bitlist option" where
  "Or b c = (if Len b \<noteq> Len c then None else Some (map2 (\<lambda>x y. x \<or> y) b c))"

text \<open>\<^verbatim>\<open>b.Contains(c)\<close>: no byte of \<^verbatim>\<open>b ^ (b | c)\<close> is non-zero.\<close>

definition Contains :: "bitlist \<Rightarrow> bitlist \<Rightarrow> bool option" where
  "Contains b c =
     (if Len b \<noteq> Len c then None else Some (list_all2 (\<lambda>x y. (x \<or> y) = x) b c))"

text \<open>\<^verbatim>\<open>XorCount\<close> of \<^verbatim>\<open>Bitlist64\<close>: the number of positions where the two lists differ.\<close>

definition XorCount :: "bitlist \<Rightarrow> bitlist \<Rightarrow> nat option" where
  "XorCount b c = map_option Count (Xor b c)"

text \<open>\<^verbatim>\<open>BitIndices\<close>: the set positions, ascending.\<close>

definition BitIndices :: "bitlist \<Rightarrow> nat list" where
  "BitIndices b = filter (\<lambda>i. b ! i) [0..<length b]"

text \<open>\<^verbatim>\<open>SetBitAt\<close> of \<^verbatim>\<open>Bitlist64\<close> does nothing for a position beyond the size.\<close>

definition SetBitAt :: "bitlist \<Rightarrow> nat \<Rightarrow> bool \<Rightarrow> bitlist" where
  "SetBitAt b idx val = (if idx \<ge> length b then b else b[idx := val])"

definition NewBitlist64 :: "nat \<Rightarrow> bitlist" where
  "NewBitlist64 n = replicate n False"

subsection \<open>Attestations and errors\<close>

text \<open>
  \<^verbatim>\<open>Data\<close> is a pointer to the vote data, \<open>None\<close> when nil; the vote data itself is opaque
  and stands as a number. \<^verbatim>\<open>Signature\<close> is a byte string.
\<close>

record Attestation =
  AggregationBits :: bitlist
  Data :: "nat option"
  Signature :: "nat list"

datatype error =
    ErrNilList
  | ErrInvalidMaxCoverProblem
  | ErrBitsDifferentLen
  | ErrInvalidAttestationCount
  | ErrInvalidSignature

text \<open>
  Modelled from the spec: \<^verbatim>\<open>stateTrie.CopyAttestationData\<close> is not part of the sources at
  hand; the vote data is "copied verbatim onto aggregates" (section 3), and the copy of
  nil is nil.
\<close>

definition CopyAttestationData :: "nat option \<Rightarrow> nat option" where
  "CopyAttestationData d = d"

subsection \<open>The coverage solver\<close>

text \<open>
  Modelled from the spec: \<^verbatim>\<open>MaxCoverProblem.Cover\<close> and \<^verbatim>\<open>aggregation.MaxCover\<close> (package
  \<^verbatim>\<open>shared/aggregation\<close>) are not part of the sources at hand. Section 4.2 gives the
  algorithm of one call: start with an empty covered vector and an empty selection;
  repeatedly choose, among the candidates not yet selected whose bits are disjoint with
  every selected candidate, the one with the largest popcount, the lowest index winning a
  tie; stop when there is none or when it adds no new bit; otherwise add it and or its
  bits into the covered vector, until the budget \<open>k\<close> is used up. It fails with
  \<^verbatim>\<open>ErrInvalidMaxCoverProblem\<close> when the candidate list is empty or a candidate is nil or of
  length zero (sections 4.2 and 7), and with \<^verbatim>\<open>ErrBitsDifferentLen\<close> when candidates differ
  in length (section 7).
\<close>

definition disjoint :: "bitlist \<Rightarrow> bitlist \<Rightarrow> bool" where
  "disjoint b c = list_all (\<lambda>(x, y). \<not> (x \<and> y)) (zip b c)"

definition newBits :: "bitlist \<Rightarrow> bitlist \<Rightarrow> nat" where
  "newBits c covered = Count (map2 (\<lambda>x y. x \<and> \<not> y) c covered)"

definition eligible :: "bitlist list \<Rightarrow> nat list \<Rightarrow> nat list" where
  "eligible cands sel =
     filter (\<lambda>i. i \<notin> set sel \<and> list_all (\<lambda>j. disjoint (cands ! i) (cands ! j)) sel)
       [0..<length cands]"

fun best :: "bitlist list \<Rightarrow> nat list \<Rightarrow> nat option" where
  "best cands [] = None"
| "best cands (i # is) =
     (case best cands is of
        None \<Rightarrow> Some i
      | Some j \<Rightarrow> if Count (cands ! i) < Count (cands ! j) then Some j else Some i)"

fun greedy :: "bitlist list \<Rightarrow> nat \<Rightarrow> nat list \<Rightarrow> bitlist \<Rightarrow> nat list \<times> bitlist" where
  "greedy cands 0 sel covered = (sel, covered)"
| "greedy cands (Suc k) sel covered =
     (case best cands (eligible cands sel) of
        None \<Rightarrow> (sel, covered)
      | Some i \<Rightarrow>
          if newBits (cands ! i) covered = 0 then (sel, covered)
          else greedy cands k (sel @ [i]) (map2 (\<lambda>x y. x \<or> y) covered (cands ! i)))"

text \<open>
  Modelled from the spec: one call of the solver (sections 4.2 and 7), which is not part
  of the sources at hand. A candidate is \<open>None\<close> when it is nil.
\<close>

definition solve :: "bitlist option list \<Rightarrow> nat \<Rightarrow> error + (nat list \<times> bitlist)" where
  "solve candidates k =
     (if candidates = [] \<or> list_ex (\<lambda>c. c = None \<or> c = Some []) candidates
      then Inl ErrInvalidMaxCoverProblem
      else if list_ex (\<lambda>c. map_option Len c \<noteq> map_option Len (hd candidates)) candidates
      then Inl ErrBitsDifferentLen
      else Inr (greedy (map the candidates) k []
                  (replicate (Len (the (hd candidates))) False)))"

text \<open>
  \<^verbatim>\<open>aggregation.Aggregation\<close>, the solution of \<^verbatim>\<open>Cover\<close>: the selected keys in the order of
  their selection, and the coverage.
\<close>

record Aggregation =
  Keys :: "nat list"
  Coverage :: bitlist

text \<open>
  \<^verbatim>\<open>NewMaxCover\<close> gives candidate \<open>i\<close> the key \<open>i\<close> and the bits of attestation \<open>i\<close>; the
  problem is the list of the candidates' bits.
\<close>

definition NewMaxCover :: "Attestation list \<Rightarrow> bitlist list" where
  "NewMaxCover atts = map AggregationBits atts"

text \<open>
  Modelled from the spec: \<^verbatim>\<open>MaxCoverProblem.Cover\<close>, which is not part of the sources at hand,
  is the solver of section 4.2 on the candidates' bits.
\<close>

definition Cover :: "bitlist list \<Rightarrow> nat \<Rightarrow> error + Aggregation" where
  "Cover candidates k =
     (case solve (map Some candidates) k of
        Inl e \<Rightarrow> Inl e
      | Inr (sel, cov) \<Rightarrow> Inr \<lparr>Keys = sel, Coverage = cov\<rparr>)"

text \<open>
  Modelled from the spec: \<^verbatim>\<open>aggregation.MaxCover\<close>, which is not part of the sources at hand,
  is the solver of section 4.2; it returns the selection as a bit list over the candidates'
  positions, and the coverage.
\<close>

definition MaxCover :: "bitlist option list \<Rightarrow> nat \<Rightarrow> error + (bitlist \<times> bitlist)" where
  "MaxCover candidates k =
     (case solve candidates k of
        Inl e \<Rightarrow> Inl e
      | Inr (sel, cov) \<Rightarrow> Inr (map (\<lambda>i. i \<in> set sel) [0..<length candidates], cov))"

subsection \<open>The signature collaborator\<close>

text \<open>
  \<^verbatim>\<open>signatureFromBytes\<close> and \<^verbatim>\<open>aggregateSignatures\<close> are not part of the sources at hand and
  the specification gives their contract only (section 4.3), so the engine takes them as
  parameters: \<open>sfb\<close> decodes a byte string into a signature, \<open>None\<close> when it returns an
  error; \<open>agg\<close> is \<^verbatim>\<open>aggregateSignatures(signs).Marshal()\<close>.
\<close>

text \<open>
  The loop of \<^verbatim>\<open>attList.aggregate\<close> and of \<^verbatim>\<open>aggregateAttestations\<close> that decodes the
  signatures in order and returns at the first error.
\<close>

fun decodeSignatures :: "(nat list \<Rightarrow> 's option) \<Rightarrow> Attestation list \<Rightarrow> 's list option" where
  "decodeSignatures sfb [] = Some []"
| "decodeSignatures sfb (a # al) =
     (case sfb (Signature a) of
        None \<Rightarrow> None
      | Some sig \<Rightarrow> map_option (\<lambda>signs. sig # signs) (decodeSignatures sfb al))"

subsection \<open>Attestation lists\<close>

text \<open>
  \<^verbatim>\<open>attList.validate\<close>. The list is a Go slice, \<open>None\<close> when nil. The attestations of a list
  are non-nil pointers.
\<close>

definition validate :: "Attestation list option \<Rightarrow> error option" where
  "validate al =
     (case al of
        None \<Rightarrow> Some ErrNilList
      | Some [] \<Rightarrow> Some ErrInvalidMaxCoverProblem
      | Some (a0 # rest) \<Rightarrow>
          if Len (AggregationBits a0) = 0 then Some ErrInvalidMaxCoverProblem
          else if list_ex (\<lambda>a. Len (AggregationBits a0) \<noteq> Len (AggregationBits a)) rest
          then Some ErrBitsDifferentLen
          else None)"

definition validateAttestations :: "Attestation list option \<Rightarrow> error option" where
  "validateAttestations atts = validate atts"

text \<open>\<^verbatim>\<open>attList.aggregate\<close>.\<close>

definition aggregate ::
  "(nat list \<Rightarrow> 's option) \<Rightarrow> ('s list \<Rightarrow> nat list) \<Rightarrow> Attestation list \<Rightarrow> bitlist
     \<Rightarrow> error + Attestation" where
  "aggregate sfb agg al coverage =
     (if length al < 2 then Inl ErrInvalidAttestationCount
      else case decodeSignatures sfb al of
        None \<Rightarrow> Inl ErrInvalidSignature
      | Some signs \<Rightarrow>
          Inr \<lparr>AggregationBits = coverage,
               Data = CopyAttestationData (Data (al ! 0)),
               Signature = agg signs\<rparr>)"

text \<open>\<^verbatim>\<open>attList.merge\<close>: the receiver's array is its own, with room for every element.\<close>

definition merge :: "Attestation list \<Rightarrow> Attestation list \<Rightarrow> Attestation list" where
  "merge al al1 = al @ al1"

text \<open>\<^verbatim>\<open>attList.selectUsingKeys\<close>; a key beyond the list is an index out of range.\<close>

fun selectUsingKeys :: "Attestation list \<Rightarrow> nat list \<Rightarrow> Attestation list option" where
  "selectUsingKeys al [] = Some []"
| "selectUsingKeys al (key # keys) =
     (if key < length al
      then map_option (\<lambda>filtered. al ! key # filtered) (selectUsingKeys al keys)
      else None)"

text \<open>
  The closure \<^verbatim>\<open>foundInKeys\<close> of \<^verbatim>\<open>selectComplementUsingKeys\<close>: the position of the first
  occurrence of the key; when there is one, the last key is moved there and the keys
  lose their last element.
\<close>

fun keyPosition :: "nat list \<Rightarrow> nat \<Rightarrow> nat option" where
  "keyPosition [] key = None"
| "keyPosition (k # keys) key =
     (if k = key then Some 0 else map_option Suc (keyPosition keys key))"

definition foundInKeys :: "nat list \<Rightarrow> nat \<Rightarrow> bool \<times> nat list" where
  "foundInKeys keys key =
     (case keyPosition keys key of
        None \<Rightarrow> (False, keys)
      | Some i \<Rightarrow> (True, butlast (keys[i := last keys])))"

text \<open>
  \<^verbatim>\<open>attList.selectComplementUsingKeys\<close> filters in place: \<^verbatim>\<open>filtered := al[:0]\<close> shares the
  array of \<open>al\<close>, and appending to it writes into that array. The state of the loop is the
  remaining keys, the array and the length of \<open>filtered\<close>. The result is \<open>filtered\<close> and the
  array of \<open>al\<close> after the call.
\<close>

definition selectComplementStep ::
  "nat \<Rightarrow> nat list \<times> Attestation list \<times> nat \<Rightarrow> nat list \<times> Attestation list \<times> nat" where
  "selectComplementStep i s =
     (case s of (keys, arr, m) \<Rightarrow>
        (case foundInKeys keys i of
           (True, keys') \<Rightarrow> (keys', arr, m)
         | (False, keys') \<Rightarrow> (keys', arr[m := arr ! i], Suc m)))"

definition selectComplementUsingKeys ::
  "Attestation list \<Rightarrow> nat list \<Rightarrow> Attestation list \<times> Attestation list" where
  "selectComplementUsingKeys al keys =
     (case fold selectComplementStep [0..<length al] (keys, al, 0) of
        (keys', arr, m) \<Rightarrow> (take m arr, arr))"

text \<open>\<^verbatim>\<open>attList.hasCoverage\<close>.\<close>

fun hasCoverage :: "Attestation list \<Rightarrow> bitlist \<Rightarrow> bool option" where
  "hasCoverage [] coverage = Some False"
| "hasCoverage (att # al) coverage =
     (case Xor (AggregationBits att) coverage of
        None \<Rightarrow> None
      | Some x \<Rightarrow> if Count x = 0 then Some True else hasCoverage al coverage)"

text \<open>
  \<^verbatim>\<open>sort.Slice\<close> with the comparison of \<^verbatim>\<open>filterContained\<close> (a larger popcount first) belongs
  to the Go library, which promises no order among attestations of equal popcount. It
  sorts a short slice by insertion, which keeps their order, and so does the model. The
  properties proved below of every input use only that the result holds the same
  attestations in an order of non-increasing popcount.
\<close>

definition sortSlice :: "Attestation list \<Rightarrow> Attestation list" where
  "sortSlice al = sort_key (\<lambda>a. - int (Count (AggregationBits a))) al"

text \<open>
  \<^verbatim>\<open>attList.filterContained\<close> sorts the array of \<open>al\<close> in place and filters in place, as
  \<^verbatim>\<open>selectComplementUsingKeys\<close> does. The loop has the index \<open>i\<close>, the length \<open>m\<close> of
  \<open>filtered\<close> and the array. The result is \<open>filtered\<close> and the array of \<open>al\<close> after the call.
\<close>

function filterContainedLoop ::
  "nat \<Rightarrow> nat \<Rightarrow> Attestation list \<Rightarrow> (nat \<times> Attestation list) option" where
  "filterContainedLoop i m arr =
     (if i < length arr
      then (case Contains (AggregationBits (arr ! (m - 1))) (AggregationBits (arr ! i)) of
              None \<Rightarrow> None
            | Some True \<Rightarrow> filterContainedLoop (Suc i) m arr
            | Some False \<Rightarrow> filterContainedLoop (Suc i) (Suc m) (arr[m := arr ! i]))
      else Some (m, arr))"
  by pat_completeness auto
termination
  by (relation "measure (\<lambda>(i, m, arr). length arr - i)") auto

declare filterContainedLoop.simps [simp del]

definition filterContained ::
  "Attestation list \<Rightarrow> (Attestation list \<times> Attestation list) option" where
  "filterContained al =
     (if length al < 2 then Some (al, al)
      else case filterContainedLoop 1 1 (sortSlice al) of
        None \<Rightarrow> None
      | Some (m, arr) \<Rightarrow> Some (take m arr, arr))"

definition filterContainedAttestations ::
  "Attestation list \<Rightarrow> (Attestation list \<times> Attestation list) option" where
  "filterContainedAttestations atts = filterContained atts"

subsection \<open>The loop of the two engines\<close>

text \<open>
  One execution of a loop body ends by reaching the end of the body (\<open>Continue\<close>), by
  \<^verbatim>\<open>break\<close>, by \<^verbatim>\<open>return\<close> or by a panic. Both engines loop with
  \<^verbatim>\<open>for i := 0; i < len(atts)/2; i++\<close>. \<open>rounds\<close> is that loop for a given body: it gives
  the number of times the body was entered and the step that ended the loop, \<open>Break\<close> when
  the condition \<open>i < bound\<close> ended it.
\<close>

datatype ('s, 'r) step = Continue 's | Break 's | Return 'r | Panicked

function rounds ::
  "nat \<Rightarrow> nat \<Rightarrow> ('s \<Rightarrow> ('s, 'r) step) \<Rightarrow> 's \<Rightarrow> nat \<times> ('s, 'r) step" where
  "rounds i bound body s =
     (if i < bound
      then (case body s of
              Continue s' \<Rightarrow> rounds (Suc i) bound body s'
            | Break s' \<Rightarrow> (Suc i, Break s')
            | Return r \<Rightarrow> (Suc i, Return r)
            | Panicked \<Rightarrow> (Suc i, Panicked))
      else (i, Break s))"
  by pat_completeness auto
termination
  by (relation "measure (\<lambda>(i, bound, body, s). bound - i)") auto

declare rounds.simps [simp del]

text \<open>
  What a call gives back: the returned slice (\<open>None\<close> when nil), the returned error
  (\<open>None\<close> when nil), and the array of the caller's slice as the call leaves it.
\<close>

record 'a result =
  returned :: "'a list option"
  err :: "error option"
  caller :: "'a list"

definition len :: "'a list option \<Rightarrow> nat" where
  "len s = (case s of None \<Rightarrow> 0 | Some xs \<Rightarrow> length xs)"

definition elems :: "'a list option \<Rightarrow> 'a list" where
  "elems s = (case s of None \<Rightarrow> [] | Some xs \<Rightarrow> xs)"

subsection \<open>MaxCoverAttestationAggregation\<close>

text \<open>
  The variables of the loop: \<open>aggregated\<close> has an array of its own; \<open>unaggregated\<close> is a
  slice of the caller's array \<open>atts\<close>, of which it is always a prefix.
\<close>

record state =
  aggregated :: "Attestation list"
  unaggregated :: "Attestation list"
  atts :: "Attestation list"

text \<open>
  \<^verbatim>\<open>unaggregated = unaggregated.selectComplementUsingKeys(solution.Keys)\<close>, with its effect
  on the caller's array.
\<close>

definition removeSelected :: "state \<Rightarrow> nat list \<Rightarrow> state" where
  "removeSelected st keys =
     (case selectComplementUsingKeys (unaggregated st) keys of
        (filtered, arr) \<Rightarrow>
          st\<lparr>unaggregated := filtered, atts := arr @ drop (length arr) (atts st)\<rparr>)"

definition failed :: "state \<Rightarrow> error \<Rightarrow> Attestation result" where
  "failed st e =
     \<lparr>returned = Some (merge (aggregated st) (unaggregated st)), err = Some e,
      caller = atts st\<rparr>"

definition aggregationRound ::
  "(nat list \<Rightarrow> 's option) \<Rightarrow> ('s list \<Rightarrow> nat list) \<Rightarrow> nat \<Rightarrow> state
     \<Rightarrow> (state, Attestation result) step" where
  "aggregationRound sfb agg n st =
     (if length (unaggregated st) < 2 then Break st
      else case Cover (NewMaxCover (unaggregated st)) n of
        Inl e \<Rightarrow> Return (failed st e)
      | Inr solution \<Rightarrow>
          if length (Keys solution) < 2 then Break st
          else (case hasCoverage (aggregated st) (Coverage solution) of
                  None \<Rightarrow> Panicked
                | Some True \<Rightarrow> Continue (removeSelected st (Keys solution))
                | Some False \<Rightarrow>
                    (case selectUsingKeys (unaggregated st) (Keys solution) of
                       None \<Rightarrow> Panicked
                     | Some selected \<Rightarrow>
                         (case aggregate sfb agg selected (Coverage solution) of
                            Inl e \<Rightarrow> Return (failed st e)
                          | Inr att \<Rightarrow>
                              Continue (removeSelected
                                (st\<lparr>aggregated := aggregated st @ [att]\<rparr>)
                                (Keys solution))))))"

text \<open>\<^verbatim>\<open>return aggregated.merge(unaggregated.filterContained()), nil\<close>.\<close>

definition finish :: "state \<Rightarrow> Attestation result option" where
  "finish st =
     (case filterContained (unaggregated st) of
        None \<Rightarrow> None
      | Some (filtered, arr) \<Rightarrow>
          Some \<lparr>returned = Some (merge (aggregated st) filtered), err = None,
                caller = arr @ drop (length arr) (atts st)\<rparr>)"

text \<open>
  The loop \<^verbatim>\<open>for i := 0; i < len(atts)/2; i++\<close> of \<^verbatim>\<open>MaxCoverAttestationAggregation\<close>, from the
  values that the variables have before it: the number of times its body is entered, and
  how it ends.
\<close>

definition aggregationLoop ::
  "(nat list \<Rightarrow> 's option) \<Rightarrow> ('s list \<Rightarrow> nat list) \<Rightarrow> Attestation list option
     \<Rightarrow> nat \<times> (state, Attestation result) step" where
  "aggregationLoop sfb agg input =
     rounds 0 (len input div 2) (aggregationRound sfb agg (len input))
       \<lparr>aggregated = [], unaggregated = elems input, atts = elems input\<rparr>"

definition MaxCoverAttestationAggregation ::
  "(nat list \<Rightarrow> 's option) \<Rightarrow> ('s list \<Rightarrow> nat list) \<Rightarrow> Attestation list option
     \<Rightarrow> Attestation result option" where
  "MaxCoverAttestationAggregation sfb agg input =
     (if len input < 2 then Some \<lparr>returned = input, err = None, caller = elems input\<rparr>
      else case validate input of
        Some e \<Rightarrow>
          if e = ErrBitsDifferentLen
          then Some \<lparr>returned = input, err = None, caller = elems input\<rparr>
          else Some \<lparr>returned = None, err = Some e, caller = elems input\<rparr>
      | None \<Rightarrow>
          (case snd (aggregationLoop sfb agg input) of
             Continue st \<Rightarrow> finish st
           | Break st \<Rightarrow> finish st
           | Return r \<Rightarrow> Some r
           | Panicked \<Rightarrow> None))"

subsection \<open>optMaxCoverAttestationAggregation\<close>

text \<open>
  The optimized engine works in the caller's array, where it stores nil pointers, so the
  elements of its arrays are options. A slice of an array is an offset and a length:
  \<open>aggregated\<close> is \<open>oatts[0 ..< alen]\<close>, \<open>unaggregated\<close> is \<open>oatts[uoff ..< uoff + ulen]\<close>,
  \<open>candidates\<close> is \<open>cands[coff ..< coff + clen]\<close>, and \<^verbatim>\<open>atts\<close> is the whole of \<open>oatts\<close>.
\<close>

record optState =
  oatts :: "Attestation option list"
  cands :: "bitlist option list"
  coff :: nat
  clen :: nat
  alen :: nat
  uoff :: nat
  ulen :: nat
  coveredBitsSoFar :: bitlist

definition slice :: "nat \<Rightarrow> nat \<Rightarrow> 'a list \<Rightarrow> 'a list" where
  "slice off n xs = take n (drop off xs)"

definition setSlice :: "nat \<Rightarrow> 'a list \<Rightarrow> 'a list \<Rightarrow> 'a list" where
  "setSlice off w xs = take off xs @ w @ drop (off + length w) xs"

text \<open>
  The loop of \<^verbatim>\<open>aggregateAttestations\<close> over the selected positions: the signatures so far,
  \<^verbatim>\<open>data\<close> and \<^verbatim>\<open>targetIdx\<close>. \<^verbatim>\<open>atts[idx].Signature\<close> panics for a position beyond the array
  and for a nil attestation.
\<close>

fun aggregateLoop ::
  "(nat list \<Rightarrow> 's option) \<Rightarrow> Attestation option list \<Rightarrow> nat list
     \<Rightarrow> 's list \<times> nat option \<times> nat \<Rightarrow> (error + 's list \<times> nat option \<times> nat) option" where
  "aggregateLoop sfb arr [] acc = Some (Inr acc)"
| "aggregateLoop sfb arr (idx # idxs) (signs, data, targetIdx) =
     (if idx \<ge> length arr then None
      else case arr ! idx of
        None \<Rightarrow> None
      | Some att \<Rightarrow>
          (case sfb (Signature att) of
             None \<Rightarrow> Some (Inl ErrInvalidSignature)
           | Some sig \<Rightarrow>
               if data = None
               then aggregateLoop sfb arr idxs
                      (signs @ [sig], CopyAttestationData (Data att), idx)
               else aggregateLoop sfb arr idxs (signs @ [sig], data, targetIdx)))"

text \<open>
  \<^verbatim>\<open>aggregateAttestations\<close> gives the position of the aggregate and the array with the
  aggregate stored there.
\<close>

definition aggregateAttestations ::
  "(nat list \<Rightarrow> 's option) \<Rightarrow> ('s list \<Rightarrow> nat list) \<Rightarrow> Attestation option list \<Rightarrow> bitlist
     \<Rightarrow> bitlist \<Rightarrow> (error + nat \<times> Attestation option list) option" where
  "aggregateAttestations sfb agg arr selectedKeys coverage =
     (if Count selectedKeys < 2 then Some (Inl ErrInvalidAttestationCount)
      else case aggregateLoop sfb arr (BitIndices selectedKeys) ([], None, 0) of
        None \<Rightarrow> None
      | Some (Inl e) \<Rightarrow> Some (Inl e)
      | Some (Inr (signs, data, targetIdx)) \<Rightarrow>
          if targetIdx \<ge> length arr then None
          else Some (Inr (targetIdx,
                 arr[targetIdx := Some \<lparr>AggregationBits = coverage, Data = data,
                                         Signature = agg signs\<rparr>])))"

text \<open>
  \<^verbatim>\<open>rearrangeProcessedAttestations\<close>. Its arguments here are never nil slices. The first
  loop stores nil at the processed positions of both slices.
\<close>

fun nilProcessed ::
  "Attestation option list \<Rightarrow> bitlist option list \<Rightarrow> nat list
     \<Rightarrow> (Attestation option list \<times> bitlist option list) option" where
  "nilProcessed arr cs [] = Some (arr, cs)"
| "nilProcessed arr cs (idx # idxs) =
     (if idx \<ge> length arr \<or> idx \<ge> length cs then None
      else nilProcessed (arr[idx := None]) (cs[idx := None]) idxs)"

text \<open>The inner loop: \<^verbatim>\<open>for idx1 > idx0 && atts[idx1] == nil { idx1-- }\<close>.\<close>

function skipNil :: "Attestation option list \<Rightarrow> nat \<Rightarrow> nat \<Rightarrow> nat" where
  "skipNil arr idx0 idx1 =
     (if idx1 > idx0 \<and> arr ! idx1 = None then skipNil arr idx0 (idx1 - 1) else idx1)"
  by pat_completeness auto
termination
  by (relation "measure (\<lambda>(arr, idx0, idx1). idx1)") auto

declare skipNil.simps [simp del]

text \<open>
  The second loop swaps each processed position with the last non-nil position, in both
  slices (\<open>swapProcessed\<close> is its body); \<^verbatim>\<open>candidates[idx1]\<close> panics when the slice of
  candidates is shorter than the array of attestations.
\<close>

definition swapProcessed ::
  "Attestation option list \<Rightarrow> bitlist option list \<Rightarrow> nat
     \<Rightarrow> (Attestation option list \<times> bitlist option list) option" where
  "swapProcessed arr cs idx0 =
     (if idx0 \<ge> length arr then None
      else let idx1 = skipNil arr idx0 (length arr - 1) in
        if idx0 = idx1 then Some (arr, cs)
        else if idx0 \<ge> length cs \<or> idx1 \<ge> length cs then None
        else Some (arr[idx0 := arr ! idx1, idx1 := arr ! idx0],
                   cs[idx0 := cs ! idx1, idx1 := cs ! idx0]))"

fun moveProcessed ::
  "Attestation option list \<Rightarrow> bitlist option list \<Rightarrow> nat list
     \<Rightarrow> (Attestation option list \<times> bitlist option list) option" where
  "moveProcessed arr cs [] = Some (arr, cs)"
| "moveProcessed arr cs (idx0 # idxs) =
     (case swapProcessed arr cs idx0 of
        None \<Rightarrow> None
      | Some (arr', cs') \<Rightarrow> moveProcessed arr' cs' idxs)"

definition rearrangeProcessedAttestations ::
  "Attestation option list \<Rightarrow> bitlist option list \<Rightarrow> nat list
     \<Rightarrow> (Attestation option list \<times> bitlist option list) option" where
  "rearrangeProcessedAttestations arr cs processedKeys =
     (case nilProcessed arr cs processedKeys of
        None \<Rightarrow> None
      | Some (arr', cs') \<Rightarrow> moveProcessed arr' cs' processedKeys)"

text \<open>
  \<^verbatim>\<open>append(aggregated, xs...)\<close> where \<open>aggregated\<close> is the first \<open>n\<close> elements of the array:
  the elements are written behind them when the array has room, and into a new array
  otherwise. It gives the resulting slice and the array.
\<close>

definition appendInPlace :: "'a list \<Rightarrow> nat \<Rightarrow> 'a list \<Rightarrow> 'a list \<times> 'a list" where
  "appendInPlace arr n xs =
     (if n + length xs \<le> length arr
      then (take n arr @ xs, setSlice n xs arr)
      else (take n arr @ xs, arr))"

definition optFailed :: "optState \<Rightarrow> error \<Rightarrow> Attestation option result" where
  "optFailed st e =
     (case appendInPlace (oatts st) (alen st) (slice (uoff st) (ulen st) (oatts st)) of
        (res, arr) \<Rightarrow> \<lparr>returned = Some res, err = Some e, caller = arr\<rparr>)"

text \<open>
  The swap of the aggregate with the first non-aggregated item. \<^verbatim>\<open>candidates[aggIdx]\<close> is
  relative to the slice of candidates.
\<close>

definition placeAggregate :: "optState \<Rightarrow> nat \<Rightarrow> optState option" where
  "placeAggregate st aggIdx =
     (let idx0 = alen st in
      if idx0 < aggIdx
      then if aggIdx \<ge> length (oatts st) \<or> aggIdx \<ge> clen st then None
           else Some (st\<lparr>oatts := (oatts st)[idx0 := oatts st ! aggIdx, aggIdx := oatts st ! idx0],
                        cands := (cands st)[coff st + idx0 := cands st ! (coff st + aggIdx),
                                           coff st + aggIdx := cands st ! (coff st + idx0)],
                        alen := idx0 + 1\<rparr>)
      else Some st)"

text \<open>
  The end of the loop body, from \<^verbatim>\<open>processedKeys := selectedKeys.BitIndices()\<close>. A slice
  expression panics when its bound is negative or beyond the capacity. The new length
  of \<open>candidates\<close> is computed from the new length of \<open>unaggregated\<close>.
\<close>

definition removeProcessed ::
  "optState \<Rightarrow> bitlist \<Rightarrow> (optState, Attestation option result) step" where
  "removeProcessed st selectedKeys =
     (let processedKeys = BitIndices selectedKeys in
      case rearrangeProcessedAttestations (oatts st) (slice (coff st) (clen st) (cands st))
             processedKeys of
        None \<Rightarrow> Panicked
      | Some (arr, cs) \<Rightarrow>
          if ulen st < length processedKeys then Panicked
          else let ulen' = ulen st - length processedKeys in
            if ulen' < length processedKeys
               \<or> ulen' - length processedKeys > length (cands st) - coff st
            then Panicked
            else Continue (st\<lparr>oatts := arr, cands := setSlice (coff st) cs (cands st),
                             ulen := ulen', clen := ulen' - length processedKeys\<rparr>))"

definition optRound ::
  "(nat list \<Rightarrow> 's option) \<Rightarrow> ('s list \<Rightarrow> nat list) \<Rightarrow> optState
     \<Rightarrow> (optState, Attestation option result) step" where
  "optRound sfb agg st =
     (if ulen st < 2 then Break st
      else case MaxCover (slice (coff st) (clen st) (cands st)) (clen st) of
        Inl e \<Rightarrow> Return (optFailed st e)
      | Inr (selectedKeys, coverage) \<Rightarrow>
          if Count selectedKeys < 2 then Break st
          else (case XorCount (coveredBitsSoFar st) coverage of
                  None \<Rightarrow> Panicked
                | Some x \<Rightarrow>
                    if x > 0
                    then (case aggregateAttestations sfb agg (oatts st) selectedKeys coverage of
                            None \<Rightarrow> Panicked
                          | Some (Inl e) \<Rightarrow> Return (optFailed st e)
                          | Some (Inr (aggIdx, arr)) \<Rightarrow>
                              (case placeAggregate (st\<lparr>oatts := arr\<rparr>) aggIdx of
                                 None \<Rightarrow> Panicked
                               | Some st1 \<Rightarrow>
                                   if ulen st1 < 1 \<or> clen st1 < 1 then Panicked
                                   else (case Or coverage (coveredBitsSoFar st1) of
                                           None \<Rightarrow> Panicked
                                         | Some covered \<Rightarrow>
                                             removeProcessed
                                               (st1\<lparr>uoff := uoff st1 + 1, ulen := ulen st1 - 1,
                                                    coff := coff st1 + 1, clen := clen st1 - 1,
                                                    coveredBitsSoFar := covered\<rparr>)
                                               (SetBitAt selectedKeys aggIdx False))))
                    else removeProcessed st selectedKeys))"

text \<open>
  \<^verbatim>\<open>filterContainedAttestations\<close> on a slice of the array: with two elements or more, the
  comparison of \<^verbatim>\<open>sort.Slice\<close> reads the bits of every element, and panics on a nil one.
\<close>

definition filterContainedPtr ::
  "Attestation option list
     \<Rightarrow> (Attestation option list \<times> Attestation option list) option" where
  "filterContainedPtr al =
     (if length al < 2 then Some (al, al)
      else if list_ex (\<lambda>a. a = None) al then None
      else map_option (\<lambda>(filtered, arr). (map Some filtered, map Some arr))
             (filterContainedAttestations (map the al)))"

text \<open>\<^verbatim>\<open>return append(aggregated, filterContainedAttestations(unaggregated)...), nil\<close>.\<close>

definition optFinish :: "optState \<Rightarrow> Attestation option result option" where
  "optFinish st =
     (case filterContainedPtr (slice (uoff st) (ulen st) (oatts st)) of
        None \<Rightarrow> None
      | Some (filtered, w) \<Rightarrow>
          (case appendInPlace (setSlice (uoff st) w (oatts st)) (alen st) filtered of
             (res, arr) \<Rightarrow> Some \<lparr>returned = Some res, err = None, caller = arr\<rparr>))"

text \<open>
  The loop \<^verbatim>\<open>for i := 0; i < len(atts)/2; i++\<close> of \<^verbatim>\<open>optMaxCoverAttestationAggregation\<close>, from
  the values that the variables have before it (the candidates are the bits of the
  attestations, no bit is covered, \<open>aggregated\<close> is \<^verbatim>\<open>atts[:0]\<close> and \<open>unaggregated\<close> is \<^verbatim>\<open>atts[:]\<close>):
  the number of times its body is entered, and how it ends.
\<close>

definition optLoop ::
  "(nat list \<Rightarrow> 's option) \<Rightarrow> ('s list \<Rightarrow> nat list) \<Rightarrow> Attestation list option
     \<Rightarrow> nat \<times> (optState, Attestation option result) step" where
  "optLoop sfb agg input =
     (let candidates = map (\<lambda>a. Some (AggregationBits a)) (elems input) in
      rounds 0 (len input div 2) (optRound sfb agg)
        \<lparr>oatts = map Some (elems input), cands = candidates,
         coff = 0, clen = len input, alen = 0, uoff = 0, ulen = len input,
         coveredBitsSoFar = NewBitlist64 (Len (the (candidates ! 0)))\<rparr>)"

definition optMaxCoverAttestationAggregation ::
  "(nat list \<Rightarrow> 's option) \<Rightarrow> ('s list \<Rightarrow> nat list) \<Rightarrow> Attestation list option
     \<Rightarrow> Attestation option result option" where
  "optMaxCoverAttestationAggregation sfb agg input =
     (if len input < 2
      then Some \<lparr>returned = map_option (map Some) input, err = None,
                 caller = map Some (elems input)\<rparr>
      else case validateAttestations input of
        Some e \<Rightarrow>
          if e = ErrBitsDifferentLen
          then Some \<lparr>returned = map_option (map Some) input, err = None,
                     caller = map Some (elems input)\<rparr>
          else Some \<lparr>returned = None, err = Some e, caller = map Some (elems input)\<rparr>
      | None \<Rightarrow>
          (case snd (optLoop sfb agg input) of
             Continue st \<Rightarrow> optFinish st
           | Break st \<Rightarrow> optFinish st
           | Return r \<Rightarrow> Some r
           | Panicked \<Rightarrow> None))"

subsection \<open>Notions of the specification\<close>

text \<open>
  The states a loop passes through: \<open>reaches body s t\<close> when some number of complete
  executions of the body leads from \<open>s\<close> to \<open>t\<close>.
\<close>

inductive reaches :: "('s \<Rightarrow> ('s, 'r) step) \<Rightarrow> 's \<Rightarrow> 's \<Rightarrow> bool"
  for body :: "'s \<Rightarrow> ('s, 'r) step" where
  reaches_start: "reaches body s s"
| reaches_round: "reaches body s t \<Longrightarrow> body t = Continue u \<Longrightarrow> reaches body s u"

text \<open>
  Concrete inputs: a bit list written as a string of 0 and 1, an attestation with these
  bits, a fixed vote data and the given signature bytes; and one signature collaborator,
  for which every byte string is a signature (the sum of its bytes) and the aggregate of
  signatures is their sum.
\<close>

definition bits :: "string \<Rightarrow> bitlist" where
  "bits s = map (\<lambda>c. c = CHR ''1'') s"

definition att :: "string \<Rightarrow> nat list \<Rightarrow> Attestation" where
  "att s sig = \<lparr>AggregationBits = bits s, Data = Some 0, Signature = sig\<rparr>"

definition decodeSum :: "nat list \<Rightarrow> nat option" where
  "decodeSum bytes = Some (sum_list bytes)"

definition encodeSum :: "nat list \<Rightarrow> nat list" where
  "encodeSum signs = [sum_list signs]"

text \<open>A signature collaborator for which one byte string is malformed.\<close>

definition decodeExcept :: "nat list \<Rightarrow> nat list \<Rightarrow> nat option" where
  "decodeExcept bad bytes = (if bytes = bad then None else Some (sum_list bytes))"

text \<open>
  "One's bits are a strict subset of the other's": every bit of \<open>c\<close> is a bit of \<open>b\<close>, and
  the two differ. \<open>residualContainment\<close> holds of a list in which the bits of some
  attestation are a strict subset of those of another.
\<close>

definition strictSubset :: "bitlist \<Rightarrow> bitlist \<Rightarrow> bool" where
  "strictSubset c b = (list_all2 (\<lambda>x y. (x \<or> y) = x) b c \<and> b \<noteq> c)"

definition residualContainment :: "Attestation list \<Rightarrow> bool" where
  "residualContainment out =
     list_ex (\<lambda>a. list_ex (\<lambda>b. strictSubset (AggregationBits a) (AggregationBits b)) out) out"

text \<open>
  What a single pass against the attestation kept last gives: the popcounts do not
  increase along the list, and no attestation is contained in the one just before it.
\<close>

definition keptChain :: "Attestation list \<Rightarrow> bool" where
  "keptChain out =
     (sorted_wrt (\<lambda>a b. Count (AggregationBits b) \<le> Count (AggregationBits a)) out
      \<and> successively
          (\<lambda>a b. Contains (AggregationBits a) (AggregationBits b) = Some False) out)"

text \<open>
  What every state of the loop of \<^verbatim>\<open>MaxCoverAttestationAggregation\<close> on the input \<open>xs\<close>
  satisfies: the caller's array keeps its length and holds attestations of the input,
  and so does \<open>unaggregated\<close>, which is not longer than the array.
\<close>

definition withinInput :: "Attestation list \<Rightarrow> state \<Rightarrow> bool" where
  "withinInput xs st =
     (length (atts st) = length xs \<and> set (atts st) \<subseteq> set xs
      \<and> length (unaggregated st) \<le> length xs \<and> set (unaggregated st) \<subseteq> set xs)"

text \<open>
  The coverage of a bit list is the set of its set positions; the coverage of a list of
  attestations is the union of the coverages of their bits.
\<close>

definition positions :: "bitlist \<Rightarrow> nat set" where
  "positions b = set (BitIndices b)"

definition coverage :: "Attestation list \<Rightarrow> nat set" where
  "coverage al = (\<Union>a\<in>set al. positions (AggregationBits a))"

text \<open>
  What the loop of \<^verbatim>\<open>MaxCoverAttestationAggregation\<close> keeps on an input \<open>xs\<close> whose bit
  lists have the length \<open>L\<close>: every attestation of \<open>aggregated\<close> and \<open>unaggregated\<close> has bits
  of that length, and the two together cover what the input covers.
\<close>

definition conserves :: "Attestation list \<Rightarrow> nat \<Rightarrow> state \<Rightarrow> bool" where
  "conserves xs L st =
     (list_all (\<lambda>a. Len (AggregationBits a) = L) (aggregated st @ unaggregated st)
      \<and> coverage (aggregated st @ unaggregated st) = coverage xs)"

section \<open>Properties\<close>

subsection \<open>Inputs that are returned as they are\<close>

text \<open>
  C6: for every input list with fewer than 2 attestations, the empty list and the nil list
  included, both engines return the input unchanged with no error.
\<close>

theorem fewer_than_two_unchanged:
  assumes "len input < 2"
  shows "MaxCoverAttestationAggregation sfb agg input
           = Some \<lparr>returned = input, err = None, caller = elems input\<rparr>
       \<and> optMaxCoverAttestationAggregation sfb agg input
           = Some \<lparr>returned = map_option (map Some) input, err = None,
                   caller = map Some (elems input)\<rparr>"
  using assms
  by (simp add: MaxCoverAttestationAggregation_def aggregationLoop_def
      optMaxCoverAttestationAggregation_def optLoop_def Let_def)

theorem fewer_than_two_unchanged_witness:
  "MaxCoverAttestationAggregation decodeSum encodeSum None
     = Some \<lparr>returned = None, err = None, caller = []\<rparr>
   \<and> optMaxCoverAttestationAggregation decodeSum encodeSum None
     = Some \<lparr>returned = None, err = None, caller = []\<rparr>
   \<and> MaxCoverAttestationAggregation decodeSum encodeSum (Some [])
     = Some \<lparr>returned = Some [], err = None, caller = []\<rparr>
   \<and> optMaxCoverAttestationAggregation decodeSum encodeSum (Some [])
     = Some \<lparr>returned = Some [], err = None, caller = []\<rparr>
   \<and> MaxCoverAttestationAggregation decodeSum encodeSum (Some [att ''0110'' [5]])
     = Some \<lparr>returned = Some [att ''0110'' [5]], err = None, caller = [att ''0110'' [5]]\<rparr>
   \<and> optMaxCoverAttestationAggregation decodeSum encodeSum (Some [att ''0110'' [5]])
     = Some \<lparr>returned = Some [Some (att ''0110'' [5])], err = None,
             caller = [Some (att ''0110'' [5])]\<rparr>"
proof -
  have n: "len (None :: Attestation list option) < 2"
    and e: "len (Some ([] :: Attestation list)) < 2"
    and s: "len (Some [att ''0110'' [5]]) < 2"
    by (simp_all add: len_def)
  show ?thesis
    using fewer_than_two_unchanged [OF n, of decodeSum encodeSum]
      fewer_than_two_unchanged [OF e, of decodeSum encodeSum]
      fewer_than_two_unchanged [OF s, of decodeSum encodeSum]
    by (simp add: elems_def)
qed

lemma validate_mismatch:
  assumes "2 \<le> length xs" and "Len (AggregationBits (xs ! 0)) \<noteq> 0"
    and "list_ex (\<lambda>a. Len (AggregationBits a) \<noteq> Len (AggregationBits (xs ! 0))) xs"
  shows "validate (Some xs) = Some ErrBitsDifferentLen"
proof -
  obtain a0 rest where xs: "xs = a0 # rest"
    using assms(1) by (cases xs) auto
  from assms(3) obtain a where "a \<in> set xs"
    and "Len (AggregationBits a) \<noteq> Len (AggregationBits (xs ! 0))"
    by (auto simp: list_ex_iff)
  then have "a \<in> set rest" and "Len (AggregationBits a0) \<noteq> Len (AggregationBits a)"
    by (auto simp: xs)
  then have "list_ex (\<lambda>a. Len (AggregationBits a0) \<noteq> Len (AggregationBits a)) rest"
    unfolding list_ex_iff by blast
  with assms(2) show ?thesis
    by (simp add: validate_def xs)
qed

text \<open>
  C5: for every input list of at least 2 attestations whose first bit list is neither nil
  nor empty and in which some bit list has another length than the first, validation
  gives the specific condition \<^verbatim>\<open>ErrBitsDifferentLen\<close>, and both engines return the input
  list unchanged with a nil error.
\<close>

theorem mismatched_lengths_unchanged:
  assumes "2 \<le> length xs" and "Len (AggregationBits (xs ! 0)) \<noteq> 0"
    and "list_ex (\<lambda>a. Len (AggregationBits a) \<noteq> Len (AggregationBits (xs ! 0))) xs"
  shows "validate (Some xs) = Some ErrBitsDifferentLen
       \<and> validateAttestations (Some xs) = Some ErrBitsDifferentLen
       \<and> MaxCoverAttestationAggregation sfb agg (Some xs)
           = Some \<lparr>returned = Some xs, err = None, caller = xs\<rparr>
       \<and> optMaxCoverAttestationAggregation sfb agg (Some xs)
           = Some \<lparr>returned = Some (map Some xs), err = None, caller = map Some xs\<rparr>"
  using validate_mismatch [OF assms] assms(1)
  by (simp add: MaxCoverAttestationAggregation_def aggregationLoop_def
      optMaxCoverAttestationAggregation_def optLoop_def Let_def
      validateAttestations_def len_def elems_def)

theorem mismatched_lengths_unchanged_witness:
  "validate (Some [att ''1100'' [1], att ''0011'' [2], att ''011'' [4]])
     = Some ErrBitsDifferentLen
   \<and> MaxCoverAttestationAggregation decodeSum encodeSum
       (Some [att ''1100'' [1], att ''0011'' [2], att ''011'' [4]])
     = Some \<lparr>returned = Some [att ''1100'' [1], att ''0011'' [2], att ''011'' [4]],
             err = None, caller = [att ''1100'' [1], att ''0011'' [2], att ''011'' [4]]\<rparr>
   \<and> optMaxCoverAttestationAggregation decodeSum encodeSum
       (Some [att ''1100'' [1], att ''0011'' [2], att ''011'' [4]])
     = Some \<lparr>returned =
               Some [Some (att ''1100'' [1]), Some (att ''0011'' [2]), Some (att ''011'' [4])],
             err = None,
             caller = [Some (att ''1100'' [1]), Some (att ''0011'' [2]), Some (att ''011'' [4])]\<rparr>"
proof -
  let ?xs = "[att ''1100'' [1], att ''0011'' [2], att ''011'' [4]]"
  have a: "2 \<le> length ?xs" by simp
  have b: "Len (AggregationBits (?xs ! 0)) \<noteq> 0"
    by (simp add: att_def bits_def Len_def)
  have c: "list_ex (\<lambda>a. Len (AggregationBits a) \<noteq> Len (AggregationBits (?xs ! 0))) ?xs"
    by (simp add: att_def bits_def Len_def)
  show ?thesis
    using mismatched_lengths_unchanged [OF a b c, of decodeSum encodeSum] by simp
qed

subsection \<open>The number of rounds\<close>

lemma rounds_count: "i \<le> bound \<Longrightarrow> fst (rounds i bound body s) \<le> bound"
proof (induction i bound body s rule: rounds.induct)
  case (1 i bound body s)
  show ?case
  proof (cases "i < bound")
    case True
    then show ?thesis
      using 1 by (subst rounds.simps) (auto split: step.splits)
  next
    case False
    then show ?thesis
      using 1 by (subst rounds.simps) simp
  qed
qed

text \<open>
  The loop ends before its bound when a round breaks, and a round breaks when fewer than
  2 attestations are unaggregated or when the solver selects fewer than 2.
\<close>

lemma rounds_break:
  "i < bound \<Longrightarrow> body s = Break s' \<Longrightarrow> rounds i bound body s = (Suc i, Break s')"
  by (subst rounds.simps) simp

lemma aggregationRound_few:
  "length (unaggregated st) < 2 \<Longrightarrow> aggregationRound sfb agg n st = Break st"
  by (simp add: aggregationRound_def)

lemma aggregationRound_small_selection:
  "Cover (NewMaxCover (unaggregated st)) n = Inr solution \<Longrightarrow> length (Keys solution) < 2
     \<Longrightarrow> aggregationRound sfb agg n st = Break st"
  by (simp add: aggregationRound_def)

lemma optRound_few: "ulen st < 2 \<Longrightarrow> optRound sfb agg st = Break st"
  by (simp add: optRound_def)

lemma optRound_small_selection:
  "MaxCover (slice (coff st) (clen st) (cands st)) (clen st) = Inr (selectedKeys, cov)
     \<Longrightarrow> Count selectedKeys < 2 \<Longrightarrow> optRound sfb agg st = Break st"
  by (simp add: optRound_def)

subsection \<open>The states of a loop\<close>

text \<open>
  How the loop ends: with a \<^verbatim>\<open>return\<close> or a panic of the body in a state that the loop
  reached, or by leaving the loop in a state that it reached.
\<close>

lemma reaches_first:
  "reaches body t u \<Longrightarrow> body s = Continue t \<Longrightarrow> reaches body s u"
proof (induction rule: reaches.induct)
  case (reaches_start t)
  then show ?case by (blast intro: reaches.intros)
next
  case (reaches_round t v u)
  then show ?case by (blast intro: reaches.intros)
qed

lemma rounds_Return:
  "snd (rounds i bound body s) = Return r \<Longrightarrow> \<exists>t. reaches body s t \<and> body t = Return r"
proof (induction i bound body s rule: rounds.induct)
  case (1 i bound body s)
  show ?case
  proof (cases "i < bound")
    case False
    with "1.prems" show ?thesis
      by (subst (asm) rounds.simps) simp
  next
    case True
    show ?thesis
    proof (cases "body s")
      case (Continue s')
      with True "1.prems" have "snd (rounds (Suc i) bound body s') = Return r"
        by (subst (asm) rounds.simps) simp
      from "1.IH" [OF True Continue this]
      obtain t where "reaches body s' t" and "body t = Return r"
        by blast
      with Continue show ?thesis
        by (blast intro: reaches_first)
    next
      case (Break s')
      with True "1.prems" show ?thesis
        by (subst (asm) rounds.simps) simp
    next
      case (Return r')
      with True "1.prems" have "r' = r"
        by (subst (asm) rounds.simps) simp
      with Return show ?thesis
        by (blast intro: reaches_start)
    next
      case Panicked
      with True "1.prems" show ?thesis
        by (subst (asm) rounds.simps) simp
    qed
  qed
qed

lemma reaches_invariant:
  assumes "reaches body s t" and "P s"
    and "\<And>u v. P u \<Longrightarrow> body u = Continue v \<Longrightarrow> P v"
  shows "P t"
  using assms by (induction rule: reaches.induct) auto

lemma rounds_Break:
  "snd (rounds i bound body s) = Break t
     \<Longrightarrow> \<exists>u. reaches body s u \<and> (u = t \<or> body u = Break t)"
proof (induction i bound body s rule: rounds.induct)
  case (1 i bound body s)
  show ?case
  proof (cases "i < bound")
    case False
    with "1.prems" have "s = t"
      by (subst (asm) rounds.simps) simp
    then show ?thesis
      by (blast intro: reaches_start)
  next
    case True
    show ?thesis
    proof (cases "body s")
      case (Continue s')
      with True "1.prems" have "snd (rounds (Suc i) bound body s') = Break t"
        by (subst (asm) rounds.simps) simp
      from "1.IH" [OF True Continue this]
      obtain u where "reaches body s' u" and "u = t \<or> body u = Break t"
        by blast
      with Continue show ?thesis
        by (blast intro: reaches_first)
    next
      case (Break s')
      with True "1.prems" have "s' = t"
        by (subst (asm) rounds.simps) simp
      with Break show ?thesis
        by (blast intro: reaches_start)
    next
      case (Return r')
      with True "1.prems" show ?thesis
        by (subst (asm) rounds.simps) simp
    next
      case Panicked
      with True "1.prems" show ?thesis
        by (subst (asm) rounds.simps) simp
    qed
  qed
qed

lemma rounds_not_Continue: "snd (rounds i bound body s) \<noteq> Continue t"
proof (induction i bound body s rule: rounds.induct)
  case (1 i bound body s)
  show ?case
  proof (cases "i < bound")
    case False
    then show ?thesis
      by (subst rounds.simps) simp
  next
    case True
    then show ?thesis
      using "1.IH" by (subst rounds.simps) (auto split: step.splits)
  qed
qed

lemma rounds_Panicked:
  "snd (rounds i bound body s) = Panicked \<Longrightarrow> \<exists>t. reaches body s t \<and> body t = Panicked"
proof (induction i bound body s rule: rounds.induct)
  case (1 i bound body s)
  show ?case
  proof (cases "i < bound")
    case False
    with "1.prems" show ?thesis
      by (subst (asm) rounds.simps) simp
  next
    case True
    show ?thesis
    proof (cases "body s")
      case (Continue s')
      with True "1.prems" have "snd (rounds (Suc i) bound body s') = Panicked"
        by (subst (asm) rounds.simps) simp
      from "1.IH" [OF True Continue this]
      obtain t where "reaches body s' t" and "body t = Panicked"
        by blast
      with Continue show ?thesis
        by (blast intro: reaches_first)
    next
      case (Break s')
      with True "1.prems" show ?thesis
        by (subst (asm) rounds.simps) simp
    next
      case (Return r')
      with True "1.prems" show ?thesis
        by (subst (asm) rounds.simps) simp
    next
      case Panicked
      then show ?thesis
        by (blast intro: reaches_start)
    qed
  qed
qed

text \<open>
  A loop whose first round does not complete ends there; a loop that is left by a
  \<^verbatim>\<open>break\<close> was left in its body or at its bound; and what every round keeps, counting the
  rounds, holds when the loop is left.
\<close>

lemma rounds_first:
  "0 < bound \<Longrightarrow> \<forall>t. body s \<noteq> Continue t \<Longrightarrow> rounds 0 bound body s = (1, body s)"
  by (subst rounds.simps) (auto split: step.splits)

lemma rounds_Break_exhausted:
  assumes "rounds i bound body s = (k, Break t)" and "i \<le> bound" and "P i s"
    and "\<And>j u v. P j u \<Longrightarrow> body u = Continue v \<Longrightarrow> P (Suc j) v"
  shows "(\<exists>u. body u = Break t) \<or> P bound t"
  using assms
proof (induction i bound body s rule: rounds.induct)
  case (1 i bound body s)
  note run = "1.prems"(1) and le = "1.prems"(2) and here = "1.prems"(3)
    and continue = "1.prems"(4)
  show ?case
  proof (cases "i < bound")
    case False
    with le have "i = bound"
      by simp
    moreover from False run have "s = t"
      by (subst (asm) rounds.simps) simp
    ultimately show ?thesis
      using here by simp
  next
    case True
    show ?thesis
    proof (cases "body s")
      case (Continue s')
      with True run have run': "rounds (Suc i) bound body s' = (k, Break t)"
        by (subst (asm) rounds.simps) simp
      from True have le': "Suc i \<le> bound"
        by simp
      from "1.IH" [OF True Continue run' le' continue [OF here Continue] continue]
      show ?thesis .
    next
      case (Break s')
      with True run have "s' = t"
        by (subst (asm) rounds.simps) simp
      with Break show ?thesis
        by blast
    next
      case (Return r')
      with True run show ?thesis
        by (subst (asm) rounds.simps) simp
    next
      case Panicked
      with True run show ?thesis
        by (subst (asm) rounds.simps) simp
    qed
  qed
qed

lemma rounds_Break_counted:
  assumes "rounds i bound body s = (k, Break t)" and "P i s"
    and "\<And>j u v. P j u \<Longrightarrow> body u = Continue v \<Longrightarrow> P (Suc j) v"
    and "\<And>j u v. P j u \<Longrightarrow> body u = Break v \<Longrightarrow> P (Suc j) v"
  shows "P k t"
  using assms
proof (induction i bound body s rule: rounds.induct)
  case (1 i bound body s)
  note run = "1.prems"(1) and here = "1.prems"(2)
    and continue = "1.prems"(3) and break = "1.prems"(4)
  show ?case
  proof (cases "i < bound")
    case False
    with run here show ?thesis
      by (subst (asm) rounds.simps) auto
  next
    case True
    show ?thesis
    proof (cases "body s")
      case (Continue s')
      with True run have "rounds (Suc i) bound body s' = (k, Break t)"
        by (subst (asm) rounds.simps) simp
      from "1.IH" [OF True Continue this continue [OF here Continue] continue break]
      show ?thesis .
    next
      case (Break s')
      with True run have "k = Suc i \<and> s' = t"
        by (subst (asm) rounds.simps) simp
      with break [OF here Break] show ?thesis
        by simp
    next
      case (Return r')
      with True run show ?thesis
        by (subst (asm) rounds.simps) simp
    next
      case Panicked
      with True run show ?thesis
        by (subst (asm) rounds.simps) simp
    qed
  qed
qed

subsection \<open>Errors after validation\<close>

lemma solve_error:
  "solve cs k = Inl e \<Longrightarrow> e = ErrInvalidMaxCoverProblem \<or> e = ErrBitsDifferentLen"
  by (auto simp: solve_def split: if_splits)

lemma Cover_error:
  "Cover cs k = Inl e \<Longrightarrow> e = ErrInvalidMaxCoverProblem \<or> e = ErrBitsDifferentLen"
  by (auto simp: Cover_def split: sum.splits dest: solve_error)

lemma MaxCover_error:
  "MaxCover cs k = Inl e \<Longrightarrow> e = ErrInvalidMaxCoverProblem \<or> e = ErrBitsDifferentLen"
  by (auto simp: MaxCover_def split: sum.splits dest: solve_error)

lemma selectUsingKeys_length: "selectUsingKeys al keys = Some l \<Longrightarrow> length l = length keys"
  by (induction keys arbitrary: l) (auto split: if_splits)

lemma aggregate_error:
  "aggregate sfb agg al c = Inl e \<Longrightarrow> \<not> length al < 2 \<Longrightarrow> e = ErrInvalidSignature"
  by (auto simp: aggregate_def split: option.splits)

lemma aggregateLoop_error:
  "aggregateLoop sfb arr idxs acc = Some (Inl e) \<Longrightarrow> e = ErrInvalidSignature"
  by (induction sfb arr idxs acc rule: aggregateLoop.induct)
     (auto split: if_splits option.splits)

lemma aggregateAttestations_error:
  "aggregateAttestations sfb agg arr sel c = Some (Inl e) \<Longrightarrow> \<not> Count sel < 2
     \<Longrightarrow> e = ErrInvalidSignature"
  by (auto simp: aggregateAttestations_def split: option.splits sum.splits if_splits
      dest: aggregateLoop_error)

lemma aggregationRound_Return:
  "aggregationRound sfb agg n st = Return r \<Longrightarrow>
     \<exists>e. r = failed st e \<and> e \<noteq> ErrInvalidAttestationCount"
  by (auto simp: aggregationRound_def split: if_splits sum.splits option.splits bool.splits
      dest!: Cover_error selectUsingKeys_length dest: aggregate_error)

lemma removeProcessed_Return: "removeProcessed st sel \<noteq> Return r"
  by (auto simp: removeProcessed_def Let_def split: option.splits)

lemma optRound_Return:
  "optRound sfb agg st = Return r \<Longrightarrow>
     \<exists>e. r = optFailed st e \<and> e \<noteq> ErrInvalidAttestationCount"
  by (auto simp: optRound_def removeProcessed_Return
      split: if_splits sum.splits option.splits prod.splits
      dest!: MaxCover_error dest: aggregateAttestations_error)

lemma validate_error: "validate input \<noteq> Some ErrInvalidAttestationCount"
  by (auto simp: validate_def split: option.splits list.splits)

lemma finish_err: "finish st = Some r \<Longrightarrow> err r = None"
  by (auto simp: finish_def split: option.splits)

lemma optFinish_err: "optFinish st = Some r \<Longrightarrow> err r = None"
  by (auto simp: optFinish_def split: option.splits prod.splits)

lemma err_failed: "err (failed st e) = Some e"
  by (simp add: failed_def)

lemma err_optFailed: "err (optFailed st e) = Some e"
  by (simp add: optFailed_def split: prod.splits)

lemma returned_failed: "returned (failed st e) = Some (aggregated st @ unaggregated st)"
  by (simp add: failed_def merge_def)

lemma returned_optFailed:
  "returned (optFailed st e)
     = Some (slice 0 (alen st) (oatts st) @ slice (uoff st) (ulen st) (oatts st))"
  by (simp add: optFailed_def appendInPlace_def slice_def split: prod.splits)

lemma MaxCoverAttestationAggregation_err:
  assumes "MaxCoverAttestationAggregation sfb agg input = Some r" and "err r = Some e"
  shows "e \<noteq> ErrInvalidAttestationCount"
proof (cases "len input < 2")
  case True
  with assms show ?thesis
    by (auto simp: MaxCoverAttestationAggregation_def aggregationLoop_def)
next
  case big: False
  show ?thesis
  proof (cases "validate input")
    case (Some e')
    with big assms validate_error [of input] show ?thesis
      by (auto simp: MaxCoverAttestationAggregation_def aggregationLoop_def split: if_splits)
  next
    case None
    let ?run = "snd (rounds 0 (len input div 2) (aggregationRound sfb agg (len input))
                  \<lparr>aggregated = [], unaggregated = elems input, atts = elems input\<rparr>)"
    show ?thesis
    proof (cases ?run)
      case (Return r')
      with big None assms have "r' = r"
        by (simp add: MaxCoverAttestationAggregation_def aggregationLoop_def)
      with Return have "?run = Return r"
        by simp
      from rounds_Return [OF this]
      obtain t where "aggregationRound sfb agg (len input) t = Return r"
        by blast
      from aggregationRound_Return [OF this] assms(2) show ?thesis
        by (auto simp: err_failed)
    next
      case (Continue st)
      with big None assms finish_err [of st r] show ?thesis
        by (simp add: MaxCoverAttestationAggregation_def aggregationLoop_def)
    next
      case (Break st)
      with big None assms finish_err [of st r] show ?thesis
        by (simp add: MaxCoverAttestationAggregation_def aggregationLoop_def)
    next
      case Panicked
      with big None assms show ?thesis
        by (simp add: MaxCoverAttestationAggregation_def aggregationLoop_def)
    qed
  qed
qed

lemma optMaxCoverAttestationAggregation_err:
  assumes "optMaxCoverAttestationAggregation sfb agg input = Some r" and "err r = Some e"
  shows "e \<noteq> ErrInvalidAttestationCount"
proof (cases "len input < 2")
  case True
  with assms show ?thesis
    by (auto simp: optMaxCoverAttestationAggregation_def optLoop_def Let_def)
next
  case big: False
  show ?thesis
  proof (cases "validate input")
    case (Some e')
    with big assms validate_error [of input] show ?thesis
      by (auto simp: optMaxCoverAttestationAggregation_def optLoop_def Let_def
          validateAttestations_def
          split: if_splits)
  next
    case None
    let ?run = "snd (rounds 0 (len input div 2) (optRound sfb agg)
                  \<lparr>oatts = map Some (elems input),
                   cands = map (\<lambda>a. Some (AggregationBits a)) (elems input),
                   coff = 0, clen = len input, alen = 0, uoff = 0, ulen = len input,
                   coveredBitsSoFar = NewBitlist64
                     (Len (the (map (\<lambda>a. Some (AggregationBits a)) (elems input) ! 0)))\<rparr>)"
    show ?thesis
    proof (cases ?run)
      case (Return r')
      with big None assms have "r' = r"
        by (simp add: optMaxCoverAttestationAggregation_def optLoop_def Let_def
            validateAttestations_def)
      with Return have "?run = Return r"
        by simp
      from rounds_Return [OF this]
      obtain t where "optRound sfb agg t = Return r"
        by blast
      from optRound_Return [OF this] assms(2) show ?thesis
        by (auto simp: err_optFailed)
    next
      case (Continue st)
      with big None assms optFinish_err [of st r] show ?thesis
        by (simp add: optMaxCoverAttestationAggregation_def optLoop_def Let_def
            validateAttestations_def)
    next
      case (Break st)
      with big None assms optFinish_err [of st r] show ?thesis
        by (simp add: optMaxCoverAttestationAggregation_def optLoop_def Let_def
            validateAttestations_def)
    next
      case Panicked
      with big None assms show ?thesis
        by (simp add: optMaxCoverAttestationAggregation_def optLoop_def Let_def
            validateAttestations_def)
    qed
  qed
qed

text \<open>
  C9: no call of either engine returns \<^verbatim>\<open>ErrInvalidAttestationCount\<close>, and no round of either
  loop, from any state, returns with it: the branches of \<^verbatim>\<open>attList.aggregate\<close> and
  \<^verbatim>\<open>aggregateAttestations\<close> that produce it are only reached with a selection of at least 2
  members.
\<close>

theorem invalid_count_unreachable:
  "map_option err (MaxCoverAttestationAggregation sfb agg input)
     \<noteq> Some (Some ErrInvalidAttestationCount)
   \<and> map_option err (optMaxCoverAttestationAggregation sfb agg input)
     \<noteq> Some (Some ErrInvalidAttestationCount)
   \<and> aggregationRound sfb agg n st \<noteq> Return (failed st ErrInvalidAttestationCount)
   \<and> optRound sfb agg ost \<noteq> Return (optFailed ost ErrInvalidAttestationCount)"
proof (intro conjI)
  show "map_option err (MaxCoverAttestationAggregation sfb agg input)
          \<noteq> Some (Some ErrInvalidAttestationCount)"
    using MaxCoverAttestationAggregation_err [of sfb agg input] by auto
  show "map_option err (optMaxCoverAttestationAggregation sfb agg input)
          \<noteq> Some (Some ErrInvalidAttestationCount)"
    using optMaxCoverAttestationAggregation_err [of sfb agg input] by auto
  show "aggregationRound sfb agg n st \<noteq> Return (failed st ErrInvalidAttestationCount)"
  proof
    assume "aggregationRound sfb agg n st = Return (failed st ErrInvalidAttestationCount)"
    from aggregationRound_Return [OF this]
    obtain e where "failed st ErrInvalidAttestationCount = failed st e"
      and "e \<noteq> ErrInvalidAttestationCount" by blast
    then show False
      using err_failed [of st e] err_failed [of st ErrInvalidAttestationCount] by simp
  qed
  show "optRound sfb agg ost \<noteq> Return (optFailed ost ErrInvalidAttestationCount)"
  proof
    assume "optRound sfb agg ost = Return (optFailed ost ErrInvalidAttestationCount)"
    from optRound_Return [OF this]
    obtain e where "optFailed ost ErrInvalidAttestationCount = optFailed ost e"
      and "e \<noteq> ErrInvalidAttestationCount" by blast
    then show False
      using err_optFailed [of ost e] err_optFailed [of ost ErrInvalidAttestationCount] by simp
  qed
qed

subsection \<open>The attestations that filterContained keeps\<close>

lemma sortSlice_descending:
  "sorted_wrt (\<lambda>a b. Count (AggregationBits b) \<le> Count (AggregationBits a)) (sortSlice al)"
proof -
  have "sorted (map (\<lambda>a. - int (Count (AggregationBits a))) (sortSlice al))"
    by (simp add: sortSlice_def)
  then show ?thesis
    by (simp add: sorted_map sorted_wrt_iff_nth_less)
qed

lemma set_sortSlice: "set (sortSlice al) = set al"
  by (simp add: sortSlice_def)

lemma length_sortSlice: "length (sortSlice al) = length al"
  by (simp add: sortSlice_def)

lemma filterContainedLoop_keeps:
  assumes "filterContainedLoop i m arr = Some (m', arr')"
  shows "length arr' = length arr \<and> set arr' \<subseteq> set arr"
  using assms
proof (induction i m arr rule: filterContainedLoop.induct)
  case (1 i m arr)
  show ?case
  proof (cases "i < length arr")
    case False
    with "1.prems" show ?thesis
      by (subst (asm) filterContainedLoop.simps) simp
  next
    case True
    then have in_arr: "arr ! i \<in> set arr"
      by simp
    from True "1.prems" obtain b
      where b: "Contains (AggregationBits (arr ! (m - 1))) (AggregationBits (arr ! i)) = Some b"
      by (subst (asm) filterContainedLoop.simps) (auto split: option.splits)
    show ?thesis
    proof (cases b)
      case True
      with \<open>i < length arr\<close> b "1.prems"
      have "filterContainedLoop (Suc i) m arr = Some (m', arr')"
        by (subst (asm) filterContainedLoop.simps) simp
      moreover have "b = True"
        using True by simp
      ultimately show ?thesis
        using "1.IH"(1) [OF \<open>i < length arr\<close> b] by blast
    next
      case False
      with \<open>i < length arr\<close> b "1.prems"
      have "filterContainedLoop (Suc i) (Suc m) (arr[m := arr ! i]) = Some (m', arr')"
        by (subst (asm) filterContainedLoop.simps) simp
      moreover have "b = False"
        using False by simp
      ultimately have "length arr' = length arr" and "set arr' \<subseteq> set (arr[m := arr ! i])"
        using "1.IH"(2) [OF \<open>i < length arr\<close> b] by simp_all
      moreover have "set (arr[m := arr ! i]) \<subseteq> set arr"
        using in_arr set_update_subset_insert [of arr m "arr ! i"] by auto
      ultimately show ?thesis
        by blast
    qed
  qed
qed

lemma filterContainedLoop_chain:
  assumes "filterContainedLoop i m arr = r"
    and "1 \<le> m" and "m \<le> i" and "i \<le> length arr"
    and "\<forall>a\<in>set arr. Len (AggregationBits a) = L"
    and "sorted_wrt (\<lambda>a b. Count (AggregationBits b) \<le> Count (AggregationBits a))
           (take m arr @ drop i arr)"
    and "successively (\<lambda>a b. Contains (AggregationBits a) (AggregationBits b) = Some False)
           (take m arr)"
  shows "\<exists>m' arr'. r = Some (m', arr') \<and> keptChain (take m' arr')"
  using assms
proof (induction i m arr rule: filterContainedLoop.induct)
  case (1 i m arr)
  let ?P = "\<lambda>a b. Count (AggregationBits b) \<le> Count (AggregationBits a)"
  let ?Q = "\<lambda>a b. Contains (AggregationBits a) (AggregationBits b) = Some False"
  show ?case
  proof (cases "i < length arr")
    case False
    with "1.prems" have "i = length arr" and "r = Some (m, arr)"
      by (auto simp: filterContainedLoop.simps [of i m arr])
    with "1.prems" show ?thesis
      by (simp add: keptChain_def)
  next
    case True
    with "1.prems" have m: "m - 1 < length arr" "m < length arr"
      by auto
    with True "1.prems"(5)
    have "Len (AggregationBits (arr ! (m - 1))) = Len (AggregationBits (arr ! i))"
      by simp
    then obtain b
      where b: "Contains (AggregationBits (arr ! (m - 1))) (AggregationBits (arr ! i)) = Some b"
      by (simp add: Contains_def)
    have split: "drop i arr = arr ! i # drop (Suc i) arr"
      using True by (simp add: Cons_nth_drop_Suc)
    show ?thesis
    proof (cases b)
      case True
      with \<open>i < length arr\<close> b "1.prems"(1)
      have run: "filterContainedLoop (Suc i) m arr = r"
        by (subst (asm) filterContainedLoop.simps) simp
      have "sorted_wrt ?P (take m arr @ drop (Suc i) arr)"
        using "1.prems"(6) by (simp add: split sorted_wrt_append)
      moreover have "b = True"
        using True by simp
      ultimately show ?thesis
        using "1.IH"(1) [OF \<open>i < length arr\<close> b _ run] "1.prems" \<open>i < length arr\<close>
        by simp
    next
      case False
      let ?arr = "arr[m := arr ! i]"
      from False \<open>i < length arr\<close> b "1.prems"(1)
      have run: "filterContainedLoop (Suc i) (Suc m) ?arr = r"
        by (subst (asm) filterContainedLoop.simps) simp
      have tk: "take (Suc m) ?arr = take m arr @ [arr ! i]"
        using m by (simp add: take_Suc_conv_app_nth)
      have dr: "drop (Suc i) ?arr = drop (Suc i) arr"
        using "1.prems"(3) by simp
      have lens: "\<forall>a\<in>set ?arr. Len (AggregationBits a) = L"
        using "1.prems"(5) \<open>i < length arr\<close> set_update_subset_insert [of arr m "arr ! i"]
        by (metis insert_iff nth_mem subsetD)
      have srt: "sorted_wrt ?P (take (Suc m) ?arr @ drop (Suc i) ?arr)"
        using "1.prems"(6) by (simp add: tk dr split)
      have "take m arr \<noteq> []"
        using m "1.prems"(2) by auto
      then have "last (take m arr) = take m arr ! (length (take m arr) - 1)"
        by (rule last_conv_nth)
      also have "\<dots> = arr ! (m - 1)"
        using m "1.prems"(2) by (simp add: min_absorb2)
      finally have "last (take m arr) = arr ! (m - 1)" .
      with b False have "?Q (last (take m arr)) (arr ! i)"
        by simp
      with "1.prems"(7) have suc: "successively ?Q (take (Suc m) ?arr)"
        by (simp add: tk successively_append_iff)
      have "b = False"
        using False by simp
      from "1.IH"(2) [OF \<open>i < length arr\<close> b this run _ _ _ lens srt suc]
        "1.prems" \<open>i < length arr\<close>
      show ?thesis
        by simp
    qed
  qed
qed

lemma filterContained_chain:
  assumes "\<forall>a\<in>set al. Len (AggregationBits a) = L"
  shows "\<exists>filtered arr. filterContained al = Some (filtered, arr) \<and> keptChain filtered"
proof (cases "length al < 2")
  case True
  then have "al = [] \<or> (\<exists>a. al = [a])"
    by (cases al) (auto simp: length_Suc_conv)
  with True show ?thesis
    by (auto simp: filterContained_def keptChain_def)
next
  case False
  let ?s = "sortSlice al"
  have "\<exists>m' arr'. filterContainedLoop 1 1 ?s = Some (m', arr') \<and> keptChain (take m' arr')"
  proof (rule filterContainedLoop_chain [OF refl])
    show "1 \<le> length ?s"
      using False by (simp add: length_sortSlice)
    show "\<forall>a\<in>set ?s. Len (AggregationBits a) = L"
      using assms by (simp add: set_sortSlice)
    show "sorted_wrt (\<lambda>a b. Count (AggregationBits b) \<le> Count (AggregationBits a))
            (take 1 ?s @ drop 1 ?s)"
      by (simp add: sortSlice_descending)
    show "successively (\<lambda>a b. Contains (AggregationBits a) (AggregationBits b) = Some False)
            (take 1 ?s)"
      by (cases ?s) simp_all
  qed simp_all
  with False show ?thesis
    by (auto simp: filterContained_def)
qed

subsection \<open>The caller's array during the loop\<close>

lemma aggregationRound_Break: "aggregationRound sfb agg n st = Break t \<Longrightarrow> t = st"
  by (auto simp: aggregationRound_def split: if_splits sum.splits option.splits bool.splits)

lemma selectComplementStep_keeps:
  assumes "selectComplementStep i (ks, arr, m) = (ks', arr', m')" and "i < length arr"
  shows "length arr' = length arr \<and> set arr' \<subseteq> set arr"
proof -
  have "set (arr[m := arr ! i]) \<subseteq> set arr"
    using assms(2) set_update_subset_insert [of arr m "arr ! i"] by auto
  with assms(1) show ?thesis
    by (auto simp: selectComplementStep_def split: prod.splits bool.splits)
qed

lemma selectComplement_fold_keeps:
  assumes "fold selectComplementStep is (ks, arr, m) = (ks', arr', m')"
    and "\<forall>i\<in>set is. i < length arr"
  shows "length arr' = length arr \<and> set arr' \<subseteq> set arr"
  using assms
proof (induction "is" arbitrary: ks arr m)
  case Nil
  then show ?case by simp
next
  case (Cons i "is")
  obtain ks1 arr1 m1 where step: "selectComplementStep i (ks, arr, m) = (ks1, arr1, m1)"
    by (cases "selectComplementStep i (ks, arr, m)") auto
  with Cons.prems have keep: "length arr1 = length arr" "set arr1 \<subseteq> set arr"
    using selectComplementStep_keeps [OF step] by auto
  from Cons.prems step have "fold selectComplementStep is (ks1, arr1, m1) = (ks', arr', m')"
    by simp
  from Cons.IH [OF this] Cons.prems keep show ?case
    by auto
qed

lemma selectComplementUsingKeys_keeps:
  assumes "selectComplementUsingKeys al keys = (filtered, arr)"
  shows "length arr = length al \<and> set arr \<subseteq> set al
       \<and> length filtered \<le> length al \<and> set filtered \<subseteq> set al"
proof -
  obtain ks' m where f: "fold selectComplementStep [0..<length al] (keys, al, 0) = (ks', arr, m)"
    and filtered: "filtered = take m arr"
    using assms by (auto simp: selectComplementUsingKeys_def split: prod.splits)
  from selectComplement_fold_keeps [OF f] have "length arr = length al" "set arr \<subseteq> set al"
    by auto
  with filtered show ?thesis
    using set_take_subset [of m arr] by auto
qed

lemma removeSelected_withinInput:
  assumes "withinInput xs st"
  shows "withinInput xs (removeSelected st keys)"
proof -
  obtain filtered arr where s: "selectComplementUsingKeys (unaggregated st) keys = (filtered, arr)"
    by (cases "selectComplementUsingKeys (unaggregated st) keys") auto
  from selectComplementUsingKeys_keeps [OF s] assms show ?thesis
    using set_drop_subset [of "length arr" "atts st"]
    by (auto simp: withinInput_def removeSelected_def s)
qed

lemma withinInput_aggregated:
  "withinInput xs (st\<lparr>aggregated := a\<rparr>) = withinInput xs st"
  by (simp add: withinInput_def)

lemma aggregationRound_withinInput:
  assumes "withinInput xs st" and "aggregationRound sfb agg n st = Continue t"
  shows "withinInput xs t"
  using assms(2) removeSelected_withinInput [of xs _ "Keys _"] assms(1)
  by (auto simp: aggregationRound_def withinInput_aggregated
      split: if_splits sum.splits option.splits bool.splits)

lemma reaches_withinInput:
  assumes "reaches (aggregationRound sfb agg n)
             \<lparr>aggregated = [], unaggregated = xs, atts = xs\<rparr> st"
  shows "withinInput xs st"
proof (rule reaches_invariant [OF assms])
  show "withinInput xs \<lparr>aggregated = [], unaggregated = xs, atts = xs\<rparr>"
    by (simp add: withinInput_def)
qed (rule aggregationRound_withinInput)

lemma filterContained_keeps:
  assumes "filterContained al = Some (filtered, arr)"
  shows "length arr = length al \<and> set arr \<subseteq> set al"
proof (cases "length al < 2")
  case True
  with assms show ?thesis
    by (auto simp: filterContained_def)
next
  case False
  with assms obtain m where "filterContainedLoop 1 1 (sortSlice al) = Some (m, arr)"
    by (auto simp: filterContained_def split: option.splits)
  from filterContainedLoop_keeps [OF this] show ?thesis
    by (simp add: length_sortSlice set_sortSlice)
qed

lemma finish_withinInput:
  assumes "withinInput xs st" and "finish st = Some r"
  shows "length (caller r) = length xs \<and> set (caller r) \<subseteq> set xs"
proof -
  from assms(2) obtain filtered arr
    where f: "filterContained (unaggregated st) = Some (filtered, arr)"
      and r: "caller r = arr @ drop (length arr) (atts st)"
    by (auto simp: finish_def split: option.splits)
  from filterContained_keeps [OF f] assms(1) show ?thesis
    using set_drop_subset [of "length arr" "atts st"]
    by (auto simp: withinInput_def r)
qed

subsection \<open>The attestations that survive\<close>

lemma validate_None:
  assumes "validate (Some xs) = None"
  shows "xs \<noteq> [] \<and> 0 < Len (AggregationBits (hd xs))
       \<and> (\<forall>a\<in>set xs. Len (AggregationBits a) = Len (AggregationBits (hd xs)))"
  using assms
  by (cases xs) (auto simp: validate_def list_ex_iff split: if_splits)

lemma len_elems: "\<not> len input < 2 \<Longrightarrow> \<exists>xs. input = Some xs \<and> elems input = xs"
  by (cases input) (simp_all add: len_def elems_def)

text \<open>
  What the loop of \<^verbatim>\<open>MaxCoverAttestationAggregation\<close> hands to the code behind it, for an
  input that passes validation: a call that returns a nil error left the loop in a state
  that the loop reached, and returns what \<open>finish\<close> makes of it.
\<close>

lemma MaxCoverAttestationAggregation_finish:
  assumes "\<not> len input < 2" and "validate input = None"
    and "MaxCoverAttestationAggregation sfb agg input = Some r" and "err r = None"
  shows "\<exists>st. reaches (aggregationRound sfb agg (len input))
                 \<lparr>aggregated = [], unaggregated = elems input, atts = elems input\<rparr> st
             \<and> finish st = Some r"
proof -
  let ?init = "\<lparr>aggregated = [], unaggregated = elems input, atts = elems input\<rparr>"
  let ?body = "aggregationRound sfb agg (len input)"
  show ?thesis
  proof (cases "snd (rounds 0 (len input div 2) ?body ?init)")
    case (Continue st)
    then show ?thesis
      using rounds_not_Continue [of 0 "len input div 2" ?body ?init st] by simp
  next
    case (Break st)
    with assms have f: "finish st = Some r"
      by (simp add: MaxCoverAttestationAggregation_def aggregationLoop_def)
    from rounds_Break [OF Break] obtain u
      where "reaches ?body ?init u" and "u = st \<or> ?body u = Break st"
      by blast
    with f show ?thesis
      by (auto dest: aggregationRound_Break)
  next
    case (Return r')
    with assms have "snd (rounds 0 (len input div 2) ?body ?init) = Return r"
      by (simp add: MaxCoverAttestationAggregation_def aggregationLoop_def)
    from rounds_Return [OF this] obtain t where "?body t = Return r"
      by blast
    from aggregationRound_Return [OF this] assms(4) show ?thesis
      by (auto simp: err_failed)
  next
    case Panicked
    with assms show ?thesis
      by (simp add: MaxCoverAttestationAggregation_def aggregationLoop_def)
  qed
qed

text \<open>
  Against C3 as it is stated: of the attestations 1100, 0011 and 0110 the first two are
  aggregated; 0110 is the only unaggregated attestation left and is returned beside the
  aggregate 1111, of which it is a strict subset. \<^verbatim>\<open>filterContained\<close> is applied to the
  unaggregated attestations only.
\<close>

theorem residual_containment_counterexample:
  "map_option returned
     (MaxCoverAttestationAggregation decodeSum encodeSum
        (Some [att ''1100'' [1], att ''0011'' [2], att ''0110'' [4]]))
     = Some (Some [att ''1111'' [3], att ''0110'' [4]])
   \<and> residualContainment [att ''1111'' [3], att ''0110'' [4]]"
  by code_simp

text \<open>
  Among the unaggregated attestations, \<^verbatim>\<open>filterContained\<close> compares an attestation with the
  one kept last only: 11110, 01011 and 11000 overlap pairwise, so no round aggregates;
  11110 and 01011 are kept, 11000 is compared with 01011, and all three are returned,
  although 11000 is a strict subset of 11110.
\<close>

lemma kept_last_only_compared:
  "map_option returned
     (MaxCoverAttestationAggregation decodeSum encodeSum
        (Some [att ''11110'' [1], att ''01011'' [2], att ''11000'' [4]]))
     = Some (Some [att ''11110'' [1], att ''01011'' [2], att ''11000'' [4]])
   \<and> residualContainment [att ''11110'' [1], att ''01011'' [2], att ''11000'' [4]]"
  by code_simp

text \<open>
  C3, amended: when \<^verbatim>\<open>MaxCoverAttestationAggregation\<close> returns a nil error on an input of at
  least 2 attestations that passes validation, the returned list is the aggregates of the
  last state of the loop followed by the attestations that \<^verbatim>\<open>filterContained\<close> keeps of
  the unaggregated ones; along the kept attestations the popcounts do not increase, and
  none is contained in the one just before it. The aggregates are compared with nothing.
\<close>

theorem survivors_form_chain:
  assumes "\<not> len input < 2" and "validate input = None"
    and "MaxCoverAttestationAggregation sfb agg input = Some r" and "err r = None"
  shows "\<exists>st kept mem.
           reaches (aggregationRound sfb agg (len input))
             \<lparr>aggregated = [], unaggregated = elems input, atts = elems input\<rparr> st
         \<and> filterContained (unaggregated st) = Some (kept, mem)
         \<and> returned r = Some (aggregated st @ kept)
         \<and> keptChain kept"
proof -
  from MaxCoverAttestationAggregation_finish [OF assms] obtain st
    where st: "reaches (aggregationRound sfb agg (len input))
                 \<lparr>aggregated = [], unaggregated = elems input, atts = elems input\<rparr> st"
      and f: "finish st = Some r"
    by blast
  from len_elems [OF assms(1)] obtain xs where xs: "input = Some xs" "elems input = xs"
    by blast
  from assms(2) have "validate (Some xs) = None"
    by (simp add: xs)
  from validate_None [OF this]
  have "\<forall>a\<in>set xs. Len (AggregationBits a) = Len (AggregationBits (hd xs))"
    by blast
  moreover from reaches_withinInput [of sfb agg "len input" xs st] st
  have "set (unaggregated st) \<subseteq> set xs"
    by (simp add: xs(2) withinInput_def)
  ultimately have "\<forall>a\<in>set (unaggregated st).
          Len (AggregationBits a) = Len (AggregationBits (hd xs))"
    by blast
  from filterContained_chain [OF this] obtain kept mem
    where k: "filterContained (unaggregated st) = Some (kept, mem)" and "keptChain kept"
    by blast
  moreover from f k have "returned r = Some (aggregated st @ kept)"
    by (auto simp: finish_def merge_def)
  ultimately show ?thesis
    using st by blast
qed

theorem survivors_form_chain_witness:
  "\<exists>st kept mem.
     reaches (aggregationRound decodeSum encodeSum 3)
       \<lparr>aggregated = [],
        unaggregated = [att ''11110'' [1], att ''01011'' [2], att ''11000'' [4]],
        atts = [att ''11110'' [1], att ''01011'' [2], att ''11000'' [4]]\<rparr> st
     \<and> filterContained (unaggregated st) = Some (kept, mem)
     \<and> Some [att ''11110'' [1], att ''01011'' [2], att ''11000'' [4]]
         = Some (aggregated st @ kept)
     \<and> keptChain kept"
proof -
  let ?xs = "[att ''11110'' [1], att ''01011'' [2], att ''11000'' [4]]"
  let ?r = "\<lparr>returned = Some ?xs, err = None, caller = ?xs\<rparr>"
  have l: "\<not> len (Some ?xs) < 2" by (simp add: len_def)
  have v: "validate (Some ?xs) = None" by code_simp
  have m: "MaxCoverAttestationAggregation decodeSum encodeSum (Some ?xs) = Some ?r"
    by code_simp
  have e: "err ?r = None" by simp
  from survivors_form_chain [OF l v m e] show ?thesis
    by (simp add: len_def elems_def eval_nat_numeral)
qed

subsection \<open>The caller's slice\<close>

text \<open>
  Against C10 as it is stated: on 1100, 0011 and 0110 the round selects the first two,
  and \<^verbatim>\<open>selectComplementUsingKeys\<close> writes the remaining 0110 into the first slot of the
  caller's array, which is left as 0110, 0011, 0110.
\<close>

theorem input_overwritten_counterexample:
  "map_option caller
     (MaxCoverAttestationAggregation decodeSum encodeSum
        (Some [att ''1100'' [1], att ''0011'' [2], att ''0110'' [4]]))
     = Some [att ''0110'' [4], att ''0011'' [2], att ''0110'' [4]]
   \<and> [att ''0110'' [4], att ''0011'' [2], att ''0110'' [4]]
       \<noteq> [att ''1100'' [1], att ''0011'' [2], att ''0110'' [4]]"
  by code_simp

text \<open>
  C10, amended: \<^verbatim>\<open>MaxCoverAttestationAggregation\<close> filters and sorts in the array of the
  caller's slice. After a call that returns, the caller's slice has the length it had, and
  each of its elements is one of the attestations it held before the call; an attestation
  may have moved, may be there twice, and may be gone.
\<close>

theorem caller_slice_holds_input_attestations:
  assumes "MaxCoverAttestationAggregation sfb agg input = Some r"
  shows "length (caller r) = len input \<and> set (caller r) \<subseteq> set (elems input)"
proof (cases "len input < 2")
  case True
  with assms show ?thesis
    by (cases input) (auto simp: MaxCoverAttestationAggregation_def aggregationLoop_def len_def
        elems_def)
next
  case big: False
  from len_elems [OF big] obtain xs where xs: "input = Some xs" "elems input = xs"
    by blast
  show ?thesis
  proof (cases "validate input")
    case (Some e)
    with big assms show ?thesis
      by (auto simp: MaxCoverAttestationAggregation_def aggregationLoop_def xs len_def elems_def
          split: if_splits)
  next
    case None
    let ?init = "\<lparr>aggregated = [], unaggregated = xs, atts = xs\<rparr>"
    let ?body = "aggregationRound sfb agg (len input)"
    show ?thesis
    proof (cases "snd (rounds 0 (len input div 2) ?body ?init)")
      case (Continue st)
      then show ?thesis
        using rounds_not_Continue [of 0 "len input div 2" ?body ?init st] by simp
    next
      case (Break st)
      with big None assms have f: "finish st = Some r"
        by (simp add: MaxCoverAttestationAggregation_def aggregationLoop_def xs(2))
      from rounds_Break [OF Break] obtain u
        where "reaches ?body ?init u" and "u = st \<or> ?body u = Break st"
        by blast
      then have "reaches ?body ?init st"
        by (auto dest: aggregationRound_Break)
      from finish_withinInput [OF reaches_withinInput [OF this] f] show ?thesis
        by (simp add: xs len_def elems_def)
    next
      case (Return r')
      with big None assms have "snd (rounds 0 (len input div 2) ?body ?init) = Return r"
        by (simp add: MaxCoverAttestationAggregation_def aggregationLoop_def xs(2))
      from rounds_Return [OF this] obtain t
        where t: "reaches ?body ?init t" and "?body t = Return r"
        by blast
      from aggregationRound_Return [OF this(2)] obtain e where "r = failed t e"
        by blast
      with reaches_withinInput [OF t] show ?thesis
        by (simp add: failed_def withinInput_def xs len_def elems_def)
    next
      case Panicked
      with big None assms show ?thesis
        by (simp add: MaxCoverAttestationAggregation_def aggregationLoop_def xs(2))
    qed
  qed
qed

theorem caller_slice_holds_input_attestations_witness:
  "length [att ''0110'' [4], att ''0011'' [2], att ''0110'' [4]]
     = len (Some [att ''1100'' [1], att ''0011'' [2], att ''0110'' [4]])
   \<and> set [att ''0110'' [4], att ''0011'' [2], att ''0110'' [4]]
       \<subseteq> set (elems (Some [att ''1100'' [1], att ''0011'' [2], att ''0110'' [4]]))"
proof -
  have "MaxCoverAttestationAggregation decodeSum encodeSum
          (Some [att ''1100'' [1], att ''0011'' [2], att ''0110'' [4]])
        = Some \<lparr>returned = Some [att ''1111'' [3], att ''0110'' [4]], err = None,
                caller = [att ''0110'' [4], att ''0011'' [2], att ''0110'' [4]]\<rparr>"
    by code_simp
  from caller_slice_holds_input_attestations [OF this] show ?thesis
    by simp
qed

subsection \<open>Scenario A\<close>

text \<open>
  Against C4 as it is stated: 001000 is disjoint from 100100 and from 010010, so the
  solver selects all three and the call returns the single aggregate 111110, not the
  aggregate 110110 with 001000 beside it.
\<close>

theorem scenario_A_counterexample:
  "MaxCoverAttestationAggregation decodeSum encodeSum
     (Some [att ''100100'' [1], att ''010010'' [2], att ''001000'' [4]])
     = Some \<lparr>returned = Some [att ''111110'' [7]], err = None,
             caller = [att ''100100'' [1], att ''010010'' [2], att ''001000'' [4]]\<rparr>
   \<and> AggregationBits (att ''111110'' [7]) \<noteq> bits ''110110''"
  by code_simp

text \<open>
  C4, amended: for the three attestations with the same vote data and the bits 100100,
  010010 and 001000, whose signatures decode, \<^verbatim>\<open>MaxCoverAttestationAggregation\<close> returns,
  with no error, exactly one attestation: the aggregate 111110 of all three, which are
  pairwise disjoint; no attestation survives beside it.
\<close>

theorem scenario_A_one_aggregate:
  assumes "sfb s1 = Some x1" and "sfb s2 = Some x2" and "sfb s3 = Some x3"
  shows "MaxCoverAttestationAggregation sfb agg
           (Some [\<lparr>AggregationBits = bits ''100100'', Data = d, Signature = s1\<rparr>,
                  \<lparr>AggregationBits = bits ''010010'', Data = d, Signature = s2\<rparr>,
                  \<lparr>AggregationBits = bits ''001000'', Data = d, Signature = s3\<rparr>])
         = Some \<lparr>returned =
                   Some [\<lparr>AggregationBits = bits ''111110'', Data = d,
                          Signature = agg [x1, x2, x3]\<rparr>],
                 err = None,
                 caller =
                   [\<lparr>AggregationBits = bits ''100100'', Data = d, Signature = s1\<rparr>,
                    \<lparr>AggregationBits = bits ''010010'', Data = d, Signature = s2\<rparr>,
                    \<lparr>AggregationBits = bits ''001000'', Data = d, Signature = s3\<rparr>]\<rparr>"
proof -
  let ?xs = "[\<lparr>AggregationBits = bits ''100100'', Data = d, Signature = s1\<rparr>,
              \<lparr>AggregationBits = bits ''010010'', Data = d, Signature = s2\<rparr>,
              \<lparr>AggregationBits = bits ''001000'', Data = d, Signature = s3\<rparr>]"
  let ?a = "\<lparr>AggregationBits = bits ''111110'', Data = d, Signature = agg [x1, x2, x3]\<rparr>"
  have v: "validate (Some ?xs) = None"
    by (simp add: validate_def Len_def bits_def)
  have c: "Cover (NewMaxCover ?xs) (Suc (Suc (Suc 0)))
             = Inr \<lparr>Keys = [0, Suc 0, 2], Coverage = bits ''111110''\<rparr>"
    by code_simp
  have s: "selectUsingKeys ?xs [0, Suc 0, 2] = Some ?xs"
    by simp
  have a: "aggregate sfb agg ?xs (bits ''111110'') = Inr ?a"
    using assms by (simp add: aggregate_def CopyAttestationData_def)
  have r: "selectComplementUsingKeys ?xs [0, Suc 0, 2] = ([], ?xs)"
    by (simp add: selectComplementUsingKeys_def selectComplementStep_def foundInKeys_def
        upt_rec [of 0] upt_rec [of 1] upt_rec [of 2])
  have step: "aggregationRound sfb agg (Suc (Suc (Suc 0)))
                \<lparr>aggregated = [], unaggregated = ?xs, atts = ?xs\<rparr>
              = Continue \<lparr>aggregated = [?a], unaggregated = [], atts = ?xs\<rparr>"
    by (simp add: aggregationRound_def c s a r removeSelected_def)
  have run: "rounds 0 (Suc 0) (aggregationRound sfb agg (Suc (Suc (Suc 0))))
               \<lparr>aggregated = [], unaggregated = ?xs, atts = ?xs\<rparr>
             = (Suc 0, Break \<lparr>aggregated = [?a], unaggregated = [], atts = ?xs\<rparr>)"
    by (simp add: rounds.simps [of 0] rounds.simps [of "Suc 0"] step)
  show ?thesis
    by (simp add: MaxCoverAttestationAggregation_def aggregationLoop_def len_def elems_def v run
        finish_def
        filterContained_def merge_def)
qed

theorem scenario_A_one_aggregate_witness:
  "MaxCoverAttestationAggregation decodeSum encodeSum
     (Some [\<lparr>AggregationBits = bits ''100100'', Data = Some 5, Signature = [1]\<rparr>,
            \<lparr>AggregationBits = bits ''010010'', Data = Some 5, Signature = [2]\<rparr>,
            \<lparr>AggregationBits = bits ''001000'', Data = Some 5, Signature = [4]\<rparr>])
   = Some \<lparr>returned =
             Some [\<lparr>AggregationBits = bits ''111110'', Data = Some 5,
                    Signature = encodeSum [1, 2, 4]\<rparr>],
           err = None,
           caller =
             [\<lparr>AggregationBits = bits ''100100'', Data = Some 5, Signature = [1]\<rparr>,
              \<lparr>AggregationBits = bits ''010010'', Data = Some 5, Signature = [2]\<rparr>,
              \<lparr>AggregationBits = bits ''001000'', Data = Some 5, Signature = [4]\<rparr>]\<rparr>"
proof -
  have "decodeSum [1] = Some 1" and "decodeSum [2] = Some 2" and "decodeSum [4] = Some 4"
    by (simp_all add: decodeSum_def)
  from scenario_A_one_aggregate [OF this] show ?thesis .
qed

subsection \<open>Coverage\<close>

lemma positions_iff: "i \<in> positions b \<longleftrightarrow> i < length b \<and> b ! i"
  by (auto simp: positions_def BitIndices_def)

lemma positions_or:
  "length b = length c \<Longrightarrow> positions (map2 (\<lambda>x y. x \<or> y) b c) = positions b \<union> positions c"
  by (auto simp: positions_iff)

lemma positions_zero: "positions (replicate n False) = {}"
  by (auto simp: positions_iff)

lemma coverage_append: "coverage (xs @ ys) = coverage xs \<union> coverage ys"
  by (auto simp: coverage_def)

lemma coverage_Cons: "coverage (a # al) = positions (AggregationBits a) \<union> coverage al"
  by (auto simp: coverage_def)

lemma coverage_Nil: "coverage [] = {}"
  by (simp add: coverage_def)

lemma coverage_mono: "set xs \<subseteq> set ys \<Longrightarrow> coverage xs \<subseteq> coverage ys"
  by (auto simp: coverage_def)

lemma Xor_zero:
  assumes "Xor b c = Some x" and "Count x = 0"
  shows "b = c"
proof -
  from assms(1) have len: "length b = length c" and x: "x = map2 (\<lambda>x y. x \<noteq> y) b c"
    by (auto simp: Xor_def Len_def split: if_splits)
  from assms(2) have none: "\<forall>e\<in>set x. \<not> e"
    by (simp add: Count_def filter_empty_conv)
  have "b ! i = c ! i" if "i < length b" for i
  proof -
    from that len have "x ! i = (b ! i \<noteq> c ! i)"
      by (simp add: x)
    moreover from that len have "i < length x"
      by (simp add: x)
    then have "x ! i \<in> set x"
      by (rule nth_mem)
    ultimately show ?thesis
      using none by auto
  qed
  with len show ?thesis
    by (simp add: list_eq_iff_nth_eq)
qed

lemma Contains_positions:
  assumes "Contains b c = Some True"
  shows "positions c \<subseteq> positions b"
proof -
  from assms have len: "length b = length c" and "list_all2 (\<lambda>x y. (x \<or> y) = x) b c"
    by (auto simp: Contains_def Len_def split: if_splits)
  then have "\<forall>i<length c. (b ! i \<or> c ! i) = b ! i"
    by (simp add: list_all2_conv_all_nth)
  with len show ?thesis
    by (auto simp: positions_iff)
qed

lemma best_in: "best cs is = Some i \<Longrightarrow> i \<in> set is"
  by (induction "is" arbitrary: i) (auto split: option.splits if_splits)

lemma eligible_in: "i \<in> set (eligible cs sel) \<Longrightarrow> i < length cs"
  by (simp add: eligible_def)

lemma greedy_sound:
  assumes "greedy cs k sel covered = (sel', covered')"
    and "\<forall>c\<in>set cs. length c = L" and "length covered = L"
    and "\<forall>i\<in>set sel. i < length cs"
    and "positions covered = (\<Union>i\<in>set sel. positions (cs ! i))"
  shows "(\<forall>i\<in>set sel'. i < length cs) \<and> length covered' = L
       \<and> positions covered' = (\<Union>i\<in>set sel'. positions (cs ! i))"
  using assms
proof (induction k arbitrary: sel covered)
  case 0
  then show ?case by simp
next
  case (Suc k)
  show ?case
  proof (cases "best cs (eligible cs sel)")
    case None
    with Suc.prems show ?thesis by simp
  next
    case (Some i)
    then have i: "i < length cs"
      using best_in eligible_in by blast
    show ?thesis
    proof (cases "newBits (cs ! i) covered = 0")
      case True
      with Some Suc.prems show ?thesis by simp
    next
      case False
      let ?cov = "map2 (\<lambda>x y. x \<or> y) covered (cs ! i)"
      from False Some Suc.prems(1)
      have run: "greedy cs k (sel @ [i]) ?cov = (sel', covered')"
        by simp
      from i Suc.prems(2) have len_i: "length (cs ! i) = L"
        by simp
      have "positions ?cov = positions covered \<union> positions (cs ! i)"
        using len_i Suc.prems(3) by (simp add: positions_or)
      with Suc.prems(5)
      have cov: "positions ?cov = (\<Union>j\<in>set (sel @ [i]). positions (cs ! j))"
        by auto
      have "length ?cov = L"
        using len_i Suc.prems(3) by simp
      from Suc.IH [OF run Suc.prems(2) this _ cov] i Suc.prems(4) show ?thesis
        by auto
    qed
  qed
qed

lemma newBits_positions:
  assumes "newBits c covered \<noteq> 0"
  shows "positions c \<noteq> {}"
proof -
  from assms obtain e where "e \<in> set (map2 (\<lambda>x y. x \<and> \<not> y) c covered)" and e
    by (auto simp: newBits_def Count_def filter_empty_conv)
  then obtain x y where "(x, y) \<in> set (zip c covered)" and x
    by auto
  then have "x \<in> set c"
    by (auto dest: set_zip_leftD)
  with \<open>x\<close> obtain i where "i < length c" and "c ! i"
    by (auto simp: in_set_conv_nth)
  then show ?thesis
    by (auto simp: positions_iff)
qed

lemma greedy_covers:
  assumes "greedy cs k sel covered = (sel', covered')"
    and "\<forall>c\<in>set cs. length c = L" and "length covered = L"
    and "sel \<noteq> [] \<longrightarrow> positions covered \<noteq> {}"
  shows "sel' \<noteq> [] \<longrightarrow> positions covered' \<noteq> {}"
  using assms
proof (induction k arbitrary: sel covered)
  case 0
  then show ?case by simp
next
  case (Suc k)
  show ?case
  proof (cases "best cs (eligible cs sel)")
    case None
    with Suc.prems show ?thesis by simp
  next
    case (Some i)
    then have i: "i < length cs"
      using best_in eligible_in by blast
    show ?thesis
    proof (cases "newBits (cs ! i) covered = 0")
      case True
      with Some Suc.prems show ?thesis by simp
    next
      case False
      let ?cov = "map2 (\<lambda>x y. x \<or> y) covered (cs ! i)"
      from False Some Suc.prems(1)
      have run: "greedy cs k (sel @ [i]) ?cov = (sel', covered')"
        by simp
      from i Suc.prems(2) have len_i: "length (cs ! i) = L"
        by simp
      have "positions ?cov = positions covered \<union> positions (cs ! i)"
        using len_i Suc.prems(3) by (simp add: positions_or)
      with newBits_positions [OF False] have ne: "positions ?cov \<noteq> {}"
        by auto
      have "length ?cov = L"
        using len_i Suc.prems(3) by simp
      from Suc.IH [OF run Suc.prems(2) this] ne show ?thesis
        by simp
    qed
  qed
qed

lemma solve_sound:
  assumes "cs \<noteq> []" and "0 < L" and "\<forall>c\<in>set cs. length c = L"
  shows "\<exists>sel cov. solve (map Some cs) k = Inr (sel, cov)
           \<and> (\<forall>i\<in>set sel. i < length cs) \<and> length cov = L
           \<and> positions cov = (\<Union>i\<in>set sel. positions (cs ! i))
           \<and> (sel \<noteq> [] \<longrightarrow> positions cov \<noteq> {})"
proof -
  let ?os = "map Some cs"
  have hd: "hd ?os = Some (hd cs)"
    using assms(1) by (simp add: hd_map)
  have "hd cs \<in> set cs"
    using assms(1) by simp
  with assms(3) have hdL: "length (hd cs) = L"
    by blast
  have a: "\<not> list_ex (\<lambda>c. c = None \<or> c = Some []) ?os"
    using assms(2,3) by (auto simp: list_ex_iff)
  have b: "\<not> list_ex (\<lambda>c. map_option Len c \<noteq> map_option Len (hd ?os)) ?os"
    unfolding hd using assms(3) hdL by (auto simp: list_ex_iff Len_def)
  have m: "map the ?os = cs"
    by (simp add: comp_def)
  have n: "?os \<noteq> []"
    using assms(1) by simp
  obtain sel cov where g: "greedy cs k [] (replicate L False) = (sel, cov)"
    by (cases "greedy cs k [] (replicate L False)") auto
  have "solve ?os k = Inr (greedy (map the ?os) k [] (replicate (Len (the (hd ?os))) False))"
    unfolding solve_def using a b n by simp
  also have "\<dots> = Inr (sel, cov)"
    unfolding m hd using g hdL by (simp add: Len_def)
  finally have s: "solve ?os k = Inr (sel, cov)" .
  from greedy_sound [OF g assms(3)] have "\<forall>i\<in>set sel. i < length cs"
    and "length cov = L" and "positions cov = (\<Union>i\<in>set sel. positions (cs ! i))"
    by (simp_all add: positions_zero)
  moreover from greedy_covers [OF g assms(3)] have "sel \<noteq> [] \<longrightarrow> positions cov \<noteq> {}"
    by simp
  ultimately show ?thesis
    using s by blast
qed

lemma Cover_sound:
  assumes "al \<noteq> []" and "0 < L" and "\<forall>a\<in>set al. Len (AggregationBits a) = L"
  shows "\<exists>sol. Cover (NewMaxCover al) k = Inr sol
           \<and> (\<forall>i\<in>set (Keys sol). i < length al)
           \<and> Len (Coverage sol) = L
           \<and> positions (Coverage sol)
               = (\<Union>i\<in>set (Keys sol). positions (AggregationBits (al ! i)))"
proof -
  let ?cs = "map AggregationBits al"
  have "?cs \<noteq> []" and "\<forall>c\<in>set ?cs. length c = L"
    using assms(1,3) by (auto simp: Len_def)
  from solve_sound [OF this(1) assms(2) this(2), of k] obtain sel cov
    where s: "solve (map Some ?cs) k = Inr (sel, cov)"
      and k: "\<forall>i\<in>set sel. i < length ?cs" and l: "length cov = L"
      and p: "positions cov = (\<Union>i\<in>set sel. positions (?cs ! i))"
    by blast
  from k p have "positions cov = (\<Union>i\<in>set sel. positions (AggregationBits (al ! i)))"
    by auto
  with k l show ?thesis
    unfolding Cover_def NewMaxCover_def s by (simp add: Len_def)
qed

subsection \<open>Coverage is conserved by MaxCoverAttestationAggregation\<close>

lemma keyPosition_Some: "keyPosition ks key = Some i \<Longrightarrow> i < length ks \<and> ks ! i = key"
  by (induction ks arbitrary: i) (auto split: if_splits)

lemma foundInKeys_subset:
  assumes "foundInKeys ks key = (found, ks')"
  shows "set ks' \<subseteq> set ks \<and> (found \<longrightarrow> key \<in> set ks)"
proof (cases "keyPosition ks key")
  case None
  with assms show ?thesis
    by (simp add: foundInKeys_def)
next
  case (Some i)
  from keyPosition_Some [OF Some] have i: "i < length ks" and key: "ks ! i = key"
    by auto
  then have "ks \<noteq> []"
    by auto
  then have "last ks \<in> set ks"
    by simp
  then have "set (ks[i := last ks]) \<subseteq> set ks"
    using set_update_subset_insert [of ks i "last ks"] by auto
  moreover have "set (butlast (ks[i := last ks])) \<subseteq> set (ks[i := last ks])"
    by (auto dest: in_set_butlastD)
  moreover from i key have "key \<in> set ks"
    by auto
  ultimately show ?thesis
    using assms Some by (auto simp: foundInKeys_def)
qed

lemma selectComplement_fold_complete:
  assumes "fold selectComplementStep [0..<n] (keys, al, 0) = (ks, arr, m)"
    and "n \<le> length al"
  shows "m \<le> n \<and> length arr = length al \<and> set ks \<subseteq> set keys
       \<and> (\<forall>j. n \<le> j \<and> j < length al \<longrightarrow> arr ! j = al ! j)
       \<and> (\<forall>j<n. j \<notin> set keys \<longrightarrow> al ! j \<in> set (take m arr))"
  using assms
proof (induction n arbitrary: ks arr m)
  case 0
  then show ?case by simp
next
  case (Suc n)
  obtain ks0 arr0 m0
    where prev: "fold selectComplementStep [0..<n] (keys, al, 0) = (ks0, arr0, m0)"
    by (cases "fold selectComplementStep [0..<n] (keys, al, 0)") auto
  from Suc.prems(2) have n: "n < length al"
    by simp
  from Suc.IH [OF prev] n
  have m0: "m0 \<le> n" and len0: "length arr0 = length al" and ks0: "set ks0 \<subseteq> set keys"
    and suffix0: "\<forall>j. n \<le> j \<and> j < length al \<longrightarrow> arr0 ! j = al ! j"
    and kept0: "\<forall>j<n. j \<notin> set keys \<longrightarrow> al ! j \<in> set (take m0 arr0)"
    by auto
  from Suc.prems(1) prev have step: "selectComplementStep n (ks0, arr0, m0) = (ks, arr, m)"
    by simp
  obtain found ks1 where f: "foundInKeys ks0 n = (found, ks1)"
    by (cases "foundInKeys ks0 n") auto
  from foundInKeys_subset [OF f] ks0
  have ks1: "set ks1 \<subseteq> set keys" and found: "found \<longrightarrow> n \<in> set keys"
    by auto
  show ?case
  proof (cases found)
    case True
    with step f have "ks = ks1" "arr = arr0" "m = m0"
      by (simp_all add: selectComplementStep_def)
    moreover have "\<forall>j<Suc n. j \<notin> set keys \<longrightarrow> al ! j \<in> set (take m0 arr0)"
      using kept0 found True by (auto simp: less_Suc_eq)
    ultimately show ?thesis
      using m0 len0 ks1 suffix0 by auto
  next
    case False
    with step f have eq: "ks = ks1" "arr = arr0[m0 := arr0 ! n]" "m = Suc m0"
      by (simp_all add: selectComplementStep_def)
    from suffix0 n have an: "arr0 ! n = al ! n"
      by simp
    have tk: "take (Suc m0) (arr0[m0 := al ! n]) = take m0 arr0 @ [al ! n]"
      using m0 n len0 by (simp add: take_Suc_conv_app_nth)
    have "\<forall>j<Suc n. j \<notin> set keys \<longrightarrow> al ! j \<in> set (take (Suc m0) (arr0[m0 := al ! n]))"
      unfolding tk using kept0 by (auto simp: less_Suc_eq)
    moreover have "\<forall>j. Suc n \<le> j \<and> j < length al \<longrightarrow> arr0[m0 := al ! n] ! j = al ! j"
      using suffix0 m0 by auto
    ultimately show ?thesis
      using m0 len0 ks1 by (simp add: eq an)
  qed
qed

lemma selectComplementUsingKeys_complete:
  assumes "selectComplementUsingKeys al keys = (filtered, arr)"
    and "j < length al" and "j \<notin> set keys"
  shows "al ! j \<in> set filtered"
proof -
  obtain ks m where f: "fold selectComplementStep [0..<length al] (keys, al, 0) = (ks, arr, m)"
    and filtered: "filtered = take m arr"
    using assms(1) by (auto simp: selectComplementUsingKeys_def split: prod.splits)
  from selectComplement_fold_complete [OF f] assms(2,3) filtered show ?thesis
    by simp
qed

lemma hasCoverage_total:
  assumes "\<forall>a\<in>set al. Len (AggregationBits a) = Len c"
  shows "\<exists>b. hasCoverage al c = Some b \<and> (b \<longrightarrow> (\<exists>a\<in>set al. AggregationBits a = c))"
  using assms
proof (induction al)
  case Nil
  then show ?case by auto
next
  case (Cons a al)
  then obtain x where x: "Xor (AggregationBits a) c = Some x"
    by (auto simp: Xor_def)
  show ?case
  proof (cases "Count x = 0")
    case True
    with x Xor_zero [OF x] show ?thesis
      by auto
  next
    case False
    with x Cons show ?thesis
      by auto
  qed
qed

lemma selectUsingKeys_total:
  assumes "\<forall>k\<in>set keys. k < length al"
  shows "\<exists>sel. selectUsingKeys al keys = Some sel \<and> set sel = (\<lambda>k. al ! k) ` set keys"
  using assms by (induction keys) auto

lemma aggregate_bits: "aggregate sfb agg sel cov = Inr a \<Longrightarrow> AggregationBits a = cov"
  by (auto simp: aggregate_def split: if_splits option.splits)

lemma removeSelected_fields:
  "aggregated (removeSelected st keys) = aggregated st
   \<and> unaggregated (removeSelected st keys)
       = fst (selectComplementUsingKeys (unaggregated st) keys)"
  by (simp add: removeSelected_def split: prod.splits)

text \<open>
  Removing the selected attestations keeps the invariant when \<open>aggregated\<close> holds an
  attestation whose bits are the coverage of the selection.
\<close>

lemma removeSelected_conserves:
  assumes "conserves xs L st" and "\<forall>k\<in>set keys. k < length (unaggregated st)"
    and "a \<in> set (aggregated st)"
    and "positions (AggregationBits a)
           = (\<Union>k\<in>set keys. positions (AggregationBits (unaggregated st ! k)))"
  shows "conserves xs L (removeSelected st keys)"
proof -
  let ?al = "unaggregated st"
  obtain filtered arr where s: "selectComplementUsingKeys ?al keys = (filtered, arr)"
    by (cases "selectComplementUsingKeys ?al keys") auto
  from selectComplementUsingKeys_keeps [OF s] have sub: "set filtered \<subseteq> set ?al"
    by simp
  have un: "unaggregated (removeSelected st keys) = filtered"
    and ag: "aggregated (removeSelected st keys) = aggregated st"
    by (simp_all add: removeSelected_fields s)
  have "coverage ?al \<subseteq> coverage (aggregated st) \<union> coverage filtered"
  proof
    fix p
    assume "p \<in> coverage ?al"
    then obtain j where j: "j < length ?al" and p: "p \<in> positions (AggregationBits (?al ! j))"
      by (auto simp: coverage_def in_set_conv_nth)
    show "p \<in> coverage (aggregated st) \<union> coverage filtered"
    proof (cases "j \<in> set keys")
      case True
      with p assms(4) have "p \<in> positions (AggregationBits a)"
        by auto
      with assms(3) show ?thesis
        by (auto simp: coverage_def)
    next
      case False
      from selectComplementUsingKeys_complete [OF s j False] p show ?thesis
        by (auto simp: coverage_def)
    qed
  qed
  moreover have "coverage filtered \<subseteq> coverage ?al"
    using sub by (rule coverage_mono)
  ultimately have "coverage (aggregated st @ filtered) = coverage (aggregated st @ ?al)"
    by (auto simp: coverage_append)
  with assms(1) sub show ?thesis
    by (auto simp: conserves_def un ag list_all_iff)
qed

lemma aggregationRound_conserves:
  assumes "conserves xs L st" and "0 < L"
  shows "aggregationRound sfb agg n st \<noteq> Panicked
       \<and> (\<forall>t. aggregationRound sfb agg n st = Continue t \<longrightarrow> conserves xs L t)"
proof (cases "length (unaggregated st) < 2")
  case True
  then show ?thesis
    by (simp add: aggregationRound_def)
next
  case False
  let ?al = "unaggregated st"
  from assms(1) have lens: "\<forall>a\<in>set ?al. Len (AggregationBits a) = L"
    and alens: "\<forall>a\<in>set (aggregated st). Len (AggregationBits a) = L"
    by (auto simp: conserves_def list_all_iff)
  from False have "?al \<noteq> []"
    by auto
  from Cover_sound [OF this assms(2) lens, of n] obtain sol
    where c: "Cover (NewMaxCover ?al) n = Inr sol"
      and keys: "\<forall>i\<in>set (Keys sol). i < length ?al"
      and covL: "Len (Coverage sol) = L"
      and cov: "positions (Coverage sol)
                  = (\<Union>i\<in>set (Keys sol). positions (AggregationBits (?al ! i)))"
    by blast
  show ?thesis
  proof (cases "length (Keys sol) < 2")
    case True
    with False c show ?thesis
      by (simp add: aggregationRound_def)
  next
    case many: False
    from hasCoverage_total [of "aggregated st" "Coverage sol"] alens covL obtain b
      where h: "hasCoverage (aggregated st) (Coverage sol) = Some b"
        and hb: "b \<longrightarrow> (\<exists>a\<in>set (aggregated st). AggregationBits a = Coverage sol)"
      by auto
    show ?thesis
    proof (cases b)
      case True
      with hb obtain a where "a \<in> set (aggregated st)" and "AggregationBits a = Coverage sol"
        by blast
      with cov have "conserves xs L (removeSelected st (Keys sol))"
        using removeSelected_conserves [OF assms(1) keys, of a] by simp
      with False many c h True show ?thesis
        by (simp add: aggregationRound_def)
    next
      case new: False
      from selectUsingKeys_total [OF keys] obtain sel
        where sel: "selectUsingKeys ?al (Keys sol) = Some sel"
        by blast
      show ?thesis
      proof (cases "aggregate sfb agg sel (Coverage sol)")
        case (Inl e)
        with False many c h new sel show ?thesis
          by (simp add: aggregationRound_def)
      next
        case (Inr a)
        let ?st = "st\<lparr>aggregated := aggregated st @ [a]\<rparr>"
        from aggregate_bits [OF Inr] have bits: "AggregationBits a = Coverage sol"
          by simp
        have sub: "positions (Coverage sol) \<subseteq> coverage ?al"
          unfolding cov using keys nth_mem by (fastforce simp: coverage_def)
        have "conserves xs L ?st"
          using assms(1) covL bits sub
          by (auto simp: conserves_def coverage_append coverage_Cons coverage_Nil)
        from removeSelected_conserves [OF this, of "Keys sol" a] keys cov bits
        have "conserves xs L (removeSelected ?st (Keys sol))"
          by simp
        with False many c h new sel Inr show ?thesis
          by (simp add: aggregationRound_def)
      qed
    qed
  qed
qed

lemma filterContainedLoop_coverage:
  assumes "filterContainedLoop i m arr = Some (m', arr')"
    and "1 \<le> m" and "m \<le> i" and "i \<le> length arr"
  shows "coverage (take m' arr') = coverage (take m arr @ drop i arr)"
  using assms
proof (induction i m arr rule: filterContainedLoop.induct)
  case (1 i m arr)
  show ?case
  proof (cases "i < length arr")
    case False
    with "1.prems" show ?thesis
      by (auto simp: filterContainedLoop.simps [of i m arr])
  next
    case True
    with "1.prems" have m: "m - 1 < length arr" "m < length arr"
      by auto
    from True "1.prems"(1) obtain b
      where b: "Contains (AggregationBits (arr ! (m - 1))) (AggregationBits (arr ! i)) = Some b"
      by (subst (asm) filterContainedLoop.simps) (auto split: option.splits)
    have split: "drop i arr = arr ! i # drop (Suc i) arr"
      using True by (simp add: Cons_nth_drop_Suc)
    show ?thesis
    proof (cases b)
      case True
      then have bt: "b = True"
        by simp
      with \<open>i < length arr\<close> b "1.prems"(1)
      have run: "filterContainedLoop (Suc i) m arr = Some (m', arr')"
        by (subst (asm) filterContainedLoop.simps) simp
      from "1.IH"(1) [OF \<open>i < length arr\<close> b bt run] "1.prems" \<open>i < length arr\<close>
      have "coverage (take m' arr') = coverage (take m arr @ drop (Suc i) arr)"
        by simp
      moreover have "arr ! (m - 1) \<in> set (take m arr)"
        using m "1.prems"(2) by (auto simp: in_set_conv_nth intro!: exI [of _ "m - 1"])
      then have "positions (AggregationBits (arr ! (m - 1))) \<subseteq> coverage (take m arr)"
        by (auto simp: coverage_def)
      with Contains_positions [of "AggregationBits (arr ! (m - 1))" "AggregationBits (arr ! i)"]
        b bt
      have "positions (AggregationBits (arr ! i)) \<subseteq> coverage (take m arr)"
        by auto
      ultimately show ?thesis
        by (auto simp: split coverage_append coverage_Cons)
    next
      case False
      then have bf: "b = False"
        by simp
      let ?arr = "arr[m := arr ! i]"
      from bf \<open>i < length arr\<close> b "1.prems"(1)
      have run: "filterContainedLoop (Suc i) (Suc m) ?arr = Some (m', arr')"
        by (subst (asm) filterContainedLoop.simps) simp
      have tk: "take (Suc m) ?arr = take m arr @ [arr ! i]"
        using m by (simp add: take_Suc_conv_app_nth)
      have dr: "drop (Suc i) ?arr = drop (Suc i) arr"
        using "1.prems"(3) by simp
      from "1.IH"(2) [OF \<open>i < length arr\<close> b bf run] "1.prems" \<open>i < length arr\<close>
      have "coverage (take m' arr') = coverage (take (Suc m) ?arr @ drop (Suc i) ?arr)"
        by simp
      then show ?thesis
        by (simp add: tk dr split)
    qed
  qed
qed

lemma filterContained_coverage:
  assumes "filterContained al = Some (filtered, arr)"
  shows "coverage filtered = coverage al \<and> set filtered \<subseteq> set al"
proof (cases "length al < 2")
  case True
  with assms show ?thesis
    by (auto simp: filterContained_def)
next
  case False
  with assms obtain m where run: "filterContainedLoop 1 1 (sortSlice al) = Some (m, arr)"
    and filtered: "filtered = take m arr"
    by (auto simp: filterContained_def split: option.splits)
  from False have "1 \<le> length (sortSlice al)"
    by (simp add: length_sortSlice)
  from filterContainedLoop_coverage [OF run _ _ this]
  have "coverage (take m arr) = coverage (sortSlice al)"
    by simp
  also have "\<dots> = coverage al"
    by (simp add: coverage_def set_sortSlice)
  finally have "coverage filtered = coverage al"
    by (simp add: filtered)
  moreover from filterContainedLoop_keeps [OF run] have "set filtered \<subseteq> set al"
    using set_take_subset [of m arr] by (auto simp: filtered set_sortSlice)
  ultimately show ?thesis
    by simp
qed

lemma reaches_conserves:
  assumes "reaches (aggregationRound sfb agg n) s t" and "conserves xs L s" and "0 < L"
  shows "conserves xs L t"
  using assms(1,2)
proof (rule reaches_invariant)
  fix u v
  assume "conserves xs L u" and "aggregationRound sfb agg n u = Continue v"
  with aggregationRound_conserves [OF _ assms(3), of xs u sfb agg n] show "conserves xs L v"
    by blast
qed

lemma finish_conserves:
  assumes "conserves xs L st"
  shows "\<exists>r out. finish st = Some r \<and> returned r = Some out \<and> err r = None
           \<and> coverage out = coverage xs"
proof -
  from assms have "\<forall>a\<in>set (unaggregated st). Len (AggregationBits a) = L"
    by (auto simp: conserves_def list_all_iff)
  from filterContained_chain [OF this] obtain filtered arr
    where f: "filterContained (unaggregated st) = Some (filtered, arr)"
    by blast
  from filterContained_coverage [OF f] assms
  have "coverage (aggregated st @ filtered) = coverage xs"
    by (simp add: conserves_def coverage_append)
  with f show ?thesis
    by (simp add: finish_def merge_def)
qed

text \<open>
  The part of C1 that holds: on every input of at least 2 attestations that passes
  validation, \<^verbatim>\<open>MaxCoverAttestationAggregation\<close> returns (it does not panic), with or
  without an error, a list that covers exactly what the input covers.
\<close>

lemma MaxCoverAttestationAggregation_conserves_coverage:
  assumes "\<not> len input < 2" and "validate input = None"
  shows "\<exists>r out. MaxCoverAttestationAggregation sfb agg input = Some r
           \<and> returned r = Some out \<and> coverage out = coverage (elems input)"
proof -
  from len_elems [OF assms(1)] obtain xs where xs: "input = Some xs" "elems input = xs"
    by blast
  from assms(2) have "validate (Some xs) = None"
    by (simp add: xs)
  from validate_None [OF this]
  obtain L where L: "0 < L" and lens: "\<forall>a\<in>set xs. Len (AggregationBits a) = L"
    by blast
  let ?init = "\<lparr>aggregated = [], unaggregated = xs, atts = xs\<rparr>"
  let ?body = "aggregationRound sfb agg (len input)"
  have init: "conserves xs L ?init"
    using lens by (simp add: conserves_def list_all_iff)
  show ?thesis
  proof (cases "snd (rounds 0 (len input div 2) ?body ?init)")
    case (Continue st)
    then show ?thesis
      using rounds_not_Continue [of 0 "len input div 2" ?body ?init st] by simp
  next
    case (Break st)
    from rounds_Break [OF Break] obtain u
      where "reaches ?body ?init u" and "u = st \<or> ?body u = Break st"
      by blast
    then have "reaches ?body ?init st"
      by (auto dest: aggregationRound_Break)
    from finish_conserves [OF reaches_conserves [OF this init L]] obtain r out
      where "finish st = Some r" and "returned r = Some out" and "coverage out = coverage xs"
      by blast
    with assms Break show ?thesis
      by (simp add: MaxCoverAttestationAggregation_def aggregationLoop_def xs(2))
  next
    case (Return r)
    from rounds_Return [OF Return] obtain t
      where t: "reaches ?body ?init t" and "?body t = Return r"
      by blast
    from aggregationRound_Return [OF this(2)] obtain e where "r = failed t e"
      by blast
    moreover from reaches_conserves [OF t init L]
    have "coverage (aggregated t @ unaggregated t) = coverage xs"
      by (simp add: conserves_def)
    ultimately show ?thesis
      using assms Return by (simp add: MaxCoverAttestationAggregation_def aggregationLoop_def
          xs(2) returned_failed)
  next
    case Panicked
    from rounds_Panicked [OF Panicked] obtain t
      where t: "reaches ?body ?init t" and "?body t = Panicked"
      by blast
    with aggregationRound_conserves [OF reaches_conserves [OF t init L] L, of sfb agg "len input"]
    show ?thesis
      by simp
  qed
qed

subsection \<open>The optimized engine panics whenever a round selects\<close>

lemma Count_BitIndices: "Count b = length (BitIndices b)"
proof -
  have "filter (\<lambda>x. x) (map ((!) b) [0..<length b])
          = map ((!) b) (filter (\<lambda>i. b ! i) [0..<length b])"
    by (simp add: filter_map comp_def)
  then show ?thesis
    by (simp add: Count_def BitIndices_def map_nth)
qed

lemma BitIndices_iff: "i \<in> set (BitIndices b) \<longleftrightarrow> i < length b \<and> b ! i"
  by (auto simp: BitIndices_def)

lemma BitIndices_distinct: "distinct (BitIndices b)"
  by (simp add: BitIndices_def)

lemma BitIndices_clear:
  assumes "\<not> Count b < 2"
  shows "BitIndices (SetBitAt b k False) \<noteq> []"
proof -
  from assms have "2 \<le> length (BitIndices b)"
    by (simp add: Count_BitIndices)
  then obtain i j rest where ij: "BitIndices b = i # j # rest"
    by (cases "BitIndices b"; cases "tl (BitIndices b)") auto
  with BitIndices_distinct [of b] have "i \<noteq> j"
    by auto
  from ij have "i \<in> set (BitIndices b)" and "j \<in> set (BitIndices b)"
    by auto
  then have i: "i < length b \<and> b ! i" and j: "j < length b \<and> b ! j"
    by (auto simp: BitIndices_iff)
  show ?thesis
  proof (cases "k = i")
    case True
    with \<open>i \<noteq> j\<close> j have "j \<in> set (BitIndices (SetBitAt b k False))"
      by (auto simp: BitIndices_iff SetBitAt_def)
    then show ?thesis
      by auto
  next
    case False
    with i have "i \<in> set (BitIndices (SetBitAt b k False))"
      by (auto simp: BitIndices_iff SetBitAt_def)
    then show ?thesis
      by auto
  qed
qed

lemma Count_positive: "0 < Count b \<longleftrightarrow> positions b \<noteq> {}"
  by (simp add: Count_BitIndices positions_def)

lemma XorCount_zero:
  assumes "length c = n"
  shows "XorCount (NewBitlist64 n) c = Some (Count c)"
proof -
  have "map2 (\<lambda>x y. x \<noteq> y) (replicate n False) c = c"
    using assms by (simp add: list_eq_iff_nth_eq)
  with assms show ?thesis
    by (simp add: XorCount_def Xor_def NewBitlist64_def Len_def)
qed

text \<open>
  What \<^verbatim>\<open>aggregation.MaxCover\<close> gives on the candidates of a validated input: a selection
  as long as the candidate list and a coverage of the candidates' length, which has a bit
  when the selection has one.
\<close>

lemma MaxCover_sound:
  assumes "MaxCover (map Some cs) k = Inr (selectedKeys, cov)"
    and "cs \<noteq> []" and "0 < L" and "\<forall>c\<in>set cs. length c = L"
  shows "length selectedKeys = length cs \<and> length cov = L
       \<and> (0 < Count selectedKeys \<longrightarrow> 0 < Count cov)"
proof -
  from solve_sound [OF assms(2-4), of k] obtain sel cov'
    where s: "solve (map Some cs) k = Inr (sel, cov')" and len: "length cov' = L"
      and ne: "sel \<noteq> [] \<longrightarrow> positions cov' \<noteq> {}"
    by blast
  with assms(1) have sk: "selectedKeys = map (\<lambda>i. i \<in> set sel) [0..<length cs]"
    and cov: "cov = cov'"
    by (simp_all add: MaxCover_def)
  have "0 < Count selectedKeys \<longrightarrow> sel \<noteq> []"
    by (auto simp: sk Count_def)
  with ne have "0 < Count selectedKeys \<longrightarrow> 0 < Count cov"
    by (simp add: cov Count_positive)
  with len show ?thesis
    by (simp add: sk cov)
qed

lemma aggregateLoop_ok:
  assumes "\<forall>idx\<in>set idxs. idx < length arr
             \<and> (\<exists>a. arr ! idx = Some a \<and> sfb (Signature a) \<noteq> None)"
  shows "\<exists>signs data t. aggregateLoop sfb arr idxs (s0, d0, t0) = Some (Inr (signs, data, t))
           \<and> (t = t0 \<or> t \<in> set idxs)"
  using assms
proof (induction idxs arbitrary: s0 d0 t0)
  case Nil
  then show ?case by simp
next
  case (Cons idx idxs)
  then obtain a sig where idx: "idx < length arr" and a: "arr ! idx = Some a"
    and sig: "sfb (Signature a) = Some sig"
    by auto
  from Cons.prems have rest: "\<forall>idx\<in>set idxs. idx < length arr
             \<and> (\<exists>a. arr ! idx = Some a \<and> sfb (Signature a) \<noteq> None)"
    by simp
  show ?case
  proof (cases "d0 = None")
    case True
    from Cons.IH [OF rest, of "s0 @ [sig]" "CopyAttestationData (Data a)" idx]
    show ?thesis
      using idx a sig True by auto
  next
    case False
    from Cons.IH [OF rest, of "s0 @ [sig]" d0 t0]
    show ?thesis
      using idx a sig False by auto
  qed
qed

lemma nilProcessed_Some:
  assumes "nilProcessed arr cs pk = Some (arr', cs')"
  shows "length arr' = length arr \<and> length cs' = length cs
       \<and> (\<forall>idx\<in>set pk. idx < length cs)
       \<and> (\<forall>j. j \<notin> set pk \<longrightarrow> arr' ! j = arr ! j)"
  using assms
proof (induction pk arbitrary: arr cs)
  case Nil
  then show ?case by simp
next
  case (Cons idx pk)
  from Cons.prems have ok: "idx < length arr" "idx < length cs"
    and run: "nilProcessed (arr[idx := None]) (cs[idx := None]) pk = Some (arr', cs')"
    by (auto split: if_splits)
  from Cons.IH [OF run] ok show ?case
    by auto
qed

lemma rearrange_panics:
  assumes "length cs < length arr" and "pk \<noteq> []" and "\<forall>a\<in>set arr. a \<noteq> None"
  shows "rearrangeProcessedAttestations arr cs pk = None"
proof (cases "nilProcessed arr cs pk")
  case None
  then show ?thesis
    by (simp add: rearrangeProcessedAttestations_def)
next
  case (Some p)
  obtain arr' cs' where p: "p = (arr', cs')"
    by (cases p) auto
  from nilProcessed_Some [OF Some [unfolded p]]
  have la: "length arr' = length arr" and lc: "length cs' = length cs"
    and small: "\<forall>idx\<in>set pk. idx < length cs"
    and same: "\<forall>j. j \<notin> set pk \<longrightarrow> arr' ! j = arr ! j"
    by auto
  obtain idx0 rest where pk: "pk = idx0 # rest"
    using assms(2) by (cases pk) auto
  let ?last = "length arr' - 1"
  from small pk have idx0: "idx0 < length cs"
    by simp
  from small assms(1) la have "?last \<notin> set pk"
    by auto
  with same have "arr' ! ?last = arr ! ?last"
    by simp
  moreover from assms(1) la have "arr ! ?last \<in> set arr"
    by simp
  ultimately have "arr' ! ?last \<noteq> None"
    using assms(3) by auto
  then have skip: "skipNil arr' idx0 ?last = ?last"
    by (subst skipNil.simps) auto
  from idx0 assms(1) la lc
  have "\<not> length arr' \<le> idx0" and "idx0 \<noteq> ?last" and "length cs' \<le> ?last"
    by auto
  then have "swapProcessed arr' cs' idx0 = None"
    unfolding swapProcessed_def Let_def skip by simp
  then have "moveProcessed arr' cs' pk = None"
    by (simp add: pk)
  then show ?thesis
    unfolding rearrangeProcessedAttestations_def Some p by simp
qed

lemma swap_keeps_Some:
  assumes "i < length xs" and "j < length xs" and "\<forall>a\<in>set xs. a \<noteq> None"
  shows "\<forall>a\<in>set (xs[i := xs ! j, j := xs ! i]). a \<noteq> None"
  using assms by (simp add: set_swap)

lemma aggregateAttestations_Inr:
  "aggregateAttestations sfb agg arr sel cov = Some (Inr (t, arr'))
     \<Longrightarrow> t < length arr \<and> (\<exists>a. arr' = arr[t := Some a])"
  by (auto simp: aggregateAttestations_def split: if_splits option.splits sum.splits prod.splits)

text \<open>
  A round of the optimized engine that starts with the candidates in the whole array, none
  of the attestations nil, and in which \<^verbatim>\<open>aggregateAttestations\<close> succeeds on a selection of
  at least 2 attestations, panics: \<^verbatim>\<open>rearrangeProcessedAttestations\<close> gets the candidates
  without their first element and the whole array of attestations.
\<close>

lemma optRound_selected_panics:
  assumes len: "length (oatts st) = n" "length (cands st) = n" "coff st = 0" "clen st = n"
      "2 \<le> n" "\<not> ulen st < 2"
    and nn: "\<forall>a\<in>set (oatts st). a \<noteq> None"
    and cs: "cands st = map Some cs" "0 < L" "\<forall>c\<in>set cs. length c = L"
      "coveredBitsSoFar st = NewBitlist64 L"
    and sel: "MaxCover (cands st) n = Inr (selectedKeys, cov)" "\<not> Count selectedKeys < 2"
    and ag: "aggregateAttestations sfb agg (oatts st) selectedKeys cov = Some (Inr (t, arr))"
  shows "optRound sfb agg st = Panicked"
proof -
  from len(2,5) cs(1) have "cs \<noteq> []"
    by auto
  from MaxCover_sound [OF sel(1) [unfolded cs(1)] this cs(2,3)] sel(2) len(2) cs(1)
  have lsel: "length selectedKeys = n" and lcov: "length cov = L" and pos: "0 < Count cov"
    by auto
  have window: "slice (coff st) (clen st) (cands st) = cands st"
    using len by (simp add: slice_def)
  have x: "XorCount (coveredBitsSoFar st) cov = Some (Count cov)"
    using XorCount_zero [OF lcov] cs(4) by simp
  from aggregateAttestations_Inr [OF ag] len(1) obtain a
    where tn: "t < n" and a: "arr = (oatts st)[t := Some a]"
    by auto
  have arr: "length arr = n" "\<forall>a\<in>set arr. a \<noteq> None"
    using len(1) nn set_update_subset_insert [of "oatts st" t "Some a"] by (auto simp: a)
  obtain st1 where st1: "placeAggregate (st\<lparr>oatts := arr\<rparr>) t = Some st1"
    and o1: "length (oatts st1) = n" "\<forall>a\<in>set (oatts st1). a \<noteq> None"
    and c1: "length (cands st1) = n" "coff st1 = 0" "clen st1 = n" "ulen st1 = ulen st"
      "coveredBitsSoFar st1 = coveredBitsSoFar st"
  proof (cases "alen st < t")
    case True
    let ?st1 = "st\<lparr>oatts := arr[alen st := arr ! t, t := arr ! alen st],
                   cands := (cands st)[coff st + alen st := cands st ! (coff st + t),
                                       coff st + t := cands st ! (coff st + alen st)],
                   alen := alen st + 1\<rparr>"
    have "\<forall>a\<in>set (arr[alen st := arr ! t, t := arr ! alen st]). a \<noteq> None"
      by (rule swap_keeps_Some) (use True tn arr in auto)
    then have "\<forall>a\<in>set (oatts ?st1). a \<noteq> None"
      by simp
    moreover have "placeAggregate (st\<lparr>oatts := arr\<rparr>) t = Some ?st1"
      using True tn len arr(1) by (simp add: placeAggregate_def Let_def)
    ultimately show ?thesis
      using that [of ?st1] len arr(1) by simp
  next
    case False
    then have "placeAggregate (st\<lparr>oatts := arr\<rparr>) t = Some (st\<lparr>oatts := arr\<rparr>)"
      by (simp add: placeAggregate_def Let_def)
    then show ?thesis
      using that [of "st\<lparr>oatts := arr\<rparr>"] arr len by simp
  qed
  obtain covered where covered: "Or cov (coveredBitsSoFar st1) = Some covered"
    using lcov c1(5) cs(4) by (simp add: Or_def NewBitlist64_def Len_def)
  let ?st2 = "st1\<lparr>uoff := uoff st1 + 1, ulen := ulen st1 - 1,
                 coff := coff st1 + 1, clen := clen st1 - 1,
                 coveredBitsSoFar := covered\<rparr>"
  let ?sel = "SetBitAt selectedKeys t False"
  have "length (slice (coff ?st2) (clen ?st2) (cands ?st2)) < length (oatts ?st2)"
    using o1(1) c1 tn by (simp add: slice_def)
  from rearrange_panics [OF this BitIndices_clear [OF sel(2)]] o1(2)
  have "rearrangeProcessedAttestations (oatts ?st2)
          (slice (coff ?st2) (clen ?st2) (cands ?st2)) (BitIndices ?sel) = None"
    by simp
  then have "removeProcessed ?st2 ?sel = Panicked"
    by (simp add: removeProcessed_def Let_def)
  moreover have "\<not> (ulen st1 < 1 \<or> clen st1 < 1)"
    using c1 len(6) tn by simp
  ultimately show ?thesis
    unfolding optRound_def window
    using len(6) sel x pos ag st1 covered by (simp add: len(4))
qed

lemma optRound_panics:
  assumes len: "length (oatts st) = n" "length (cands st) = n" "coff st = 0" "clen st = n"
      "2 \<le> n" "\<not> ulen st < 2"
    and sigs: "\<forall>a\<in>set (oatts st). \<exists>x. a = Some x \<and> sfb (Signature x) \<noteq> None"
    and cs: "cands st = map Some cs" "0 < L" "\<forall>c\<in>set cs. length c = L"
      "coveredBitsSoFar st = NewBitlist64 L"
    and sel: "MaxCover (cands st) n = Inr (selectedKeys, cov)" "\<not> Count selectedKeys < 2"
  shows "optRound sfb agg st = Panicked"
proof -
  from len(2,5) cs(1) have "cs \<noteq> []"
    by auto
  from MaxCover_sound [OF sel(1) [unfolded cs(1)] this cs(2,3)] len(2) cs(1)
  have lsel: "length selectedKeys = n"
    by auto
  have inds: "\<forall>idx\<in>set (BitIndices selectedKeys). idx < length (oatts st)
             \<and> (\<exists>a. oatts st ! idx = Some a \<and> sfb (Signature a) \<noteq> None)"
    using lsel len(1) sigs by (auto simp: BitIndices_iff)
  from aggregateLoop_ok [OF inds, of "[]" None 0] obtain signs data t
    where loop: "aggregateLoop sfb (oatts st) (BitIndices selectedKeys) ([], None, 0)
                   = Some (Inr (signs, data, t))"
      and t: "t = 0 \<or> t \<in> set (BitIndices selectedKeys)"
    by blast
  from len(6) sel(2) have "BitIndices selectedKeys \<noteq> []"
    by (auto simp: Count_BitIndices)
  with t inds len(1) have tn: "t < n"
    by (cases "BitIndices selectedKeys") auto
  let ?a = "Some \<lparr>AggregationBits = cov, Data = data, Signature = agg signs\<rparr>"
  have ag: "aggregateAttestations sfb agg (oatts st) selectedKeys cov
              = Some (Inr (t, (oatts st)[t := ?a]))"
    using sel(2) loop tn len(1) by (simp add: aggregateAttestations_def)
  from sigs have nn: "\<forall>a\<in>set (oatts st). a \<noteq> None"
    by auto
  from optRound_selected_panics [OF len nn cs sel ag] show ?thesis .
qed

text \<open>
  No round of the optimized engine that starts with the candidates in the whole array and
  none of the attestations nil completes: it breaks, returns an error or panics.
\<close>

lemma optRound_never_continues:
  assumes len: "length (oatts st) = n" "length (cands st) = n" "coff st = 0" "clen st = n"
      "2 \<le> n"
    and nn: "\<forall>a\<in>set (oatts st). a \<noteq> None"
    and cs: "cands st = map Some cs" "0 < L" "\<forall>c\<in>set cs. length c = L"
      "coveredBitsSoFar st = NewBitlist64 L"
  shows "optRound sfb agg st \<noteq> Continue u"
proof (cases "ulen st < 2")
  case True
  then show ?thesis
    by (simp add: optRound_def)
next
  case few: False
  have window: "slice (coff st) (clen st) (cands st) = cands st"
    using len by (simp add: slice_def)
  show ?thesis
  proof (cases "MaxCover (cands st) n")
    case (Inl e)
    with few show ?thesis
      unfolding optRound_def window by (simp add: len(4))
  next
    case (Inr p)
    obtain selectedKeys cov where p: "p = (selectedKeys, cov)"
      by (cases p) auto
    note sel = Inr [unfolded p]
    show ?thesis
    proof (cases "Count selectedKeys < 2")
      case True
      with few sel show ?thesis
        unfolding optRound_def window by (simp add: len(4))
    next
      case False
      from len(2,5) cs(1) have "cs \<noteq> []"
        by auto
      from MaxCover_sound [OF sel [unfolded cs(1)] this cs(2,3)] False len(2) cs(1)
      have lcov: "length cov = L" and pos: "0 < Count cov"
        by auto
      have x: "XorCount (coveredBitsSoFar st) cov = Some (Count cov)"
        using XorCount_zero [OF lcov] cs(4) by simp
      show ?thesis
      proof (cases "aggregateAttestations sfb agg (oatts st) selectedKeys cov")
        case None
        with few sel False x pos show ?thesis
          unfolding optRound_def window by (simp add: len(4))
      next
        case (Some q)
        show ?thesis
        proof (cases q)
          case (Inl e)
          with Some few sel False x pos show ?thesis
            unfolding optRound_def window by (simp add: len(4))
        next
          case (Inr ta)
          obtain t arr where "ta = (t, arr)"
            by (cases ta) auto
          with Some Inr
          have "aggregateAttestations sfb agg (oatts st) selectedKeys cov = Some (Inr (t, arr))"
            by simp
          from optRound_selected_panics [OF len few nn cs sel False this]
          show ?thesis
            by simp
        qed
      qed
    qed
  qed
qed

text \<open>
  The defect behind C1 and C2, for every input: when the input passes validation, the
  solver selects at least 2 of its attestations and the signatures decode,
  \<^verbatim>\<open>optMaxCoverAttestationAggregation\<close> panics in its first round.
\<close>

lemma optMaxCoverAttestationAggregation_panics:
  assumes "\<not> len input < 2" and "validate input = None"
    and "MaxCover (map (\<lambda>a. Some (AggregationBits a)) (elems input)) (len input)
           = Inr (selectedKeys, cov)"
    and "\<not> Count selectedKeys < 2"
    and "\<forall>a\<in>set (elems input). sfb (Signature a) \<noteq> None"
  shows "optMaxCoverAttestationAggregation sfb agg input = None"
proof -
  from len_elems [OF assms(1)] obtain xs where xs: "input = Some xs" "elems input = xs"
    by blast
  from assms(1) have n: "\<not> length xs < 2" "len input = length xs"
    by (simp_all add: xs(1) len_def)
  from assms(2) have "validate (Some xs) = None"
    by (simp add: xs)
  from validate_None [OF this]
  obtain L where L: "0 < L" and lens: "\<forall>a\<in>set xs. Len (AggregationBits a) = L"
    and hdL: "Len (AggregationBits (hd xs)) = L" and ne: "xs \<noteq> []"
    by blast
  let ?cs = "map AggregationBits xs"
  let ?init = "\<lparr>oatts = map Some xs, cands = map (\<lambda>a. Some (AggregationBits a)) xs,
                coff = 0, clen = length xs, alen = 0, uoff = 0, ulen = length xs,
                coveredBitsSoFar = NewBitlist64
                  (Len (the (map (\<lambda>a. Some (AggregationBits a)) xs ! 0)))\<rparr>"
  have first: "Len (the (map (\<lambda>a. Some (AggregationBits a)) xs ! 0)) = L"
    using ne hdL by (cases xs) auto
  have "optRound sfb agg ?init = Panicked"
  proof (rule optRound_panics [where n = "length xs" and cs = ?cs and L = L
        and selectedKeys = selectedKeys and cov = cov])
    show "\<forall>a\<in>set (oatts ?init). \<exists>x. a = Some x \<and> sfb (Signature x) \<noteq> None"
      using assms(5) by (auto simp: xs(2))
    show "cands ?init = map Some ?cs"
      by (simp add: comp_def)
    show "\<forall>c\<in>set ?cs. length c = L"
      using lens by (auto simp: Len_def)
    show "coveredBitsSoFar ?init = NewBitlist64 L"
      by (simp add: first)
    show "MaxCover (cands ?init) (length xs) = Inr (selectedKeys, cov)"
      using assms(3) by (simp add: xs(2) n(2))
  qed (use n L assms(4) in simp_all)
  moreover have "0 < length xs div 2"
    using n(1) by simp
  ultimately have "snd (rounds 0 (length xs div 2) (optRound sfb agg) ?init) = Panicked"
    by (subst rounds.simps) simp
  with assms(1,2) show ?thesis
    by (simp add: optMaxCoverAttestationAggregation_def optLoop_def Let_def
        validateAttestations_def xs(2) n(2)
        Let_def)
qed

text \<open>
  So the loop of \<^verbatim>\<open>optMaxCoverAttestationAggregation\<close> on an input that passes validation is
  over with its first round.
\<close>

lemma optRound_initial:
  assumes "\<not> len input < 2" and "validate input = None"
  shows "optRound sfb agg
           \<lparr>oatts = map Some (elems input),
            cands = map (\<lambda>a. Some (AggregationBits a)) (elems input),
            coff = 0, clen = len input, alen = 0, uoff = 0, ulen = len input,
            coveredBitsSoFar = NewBitlist64
              (Len (the (map (\<lambda>a. Some (AggregationBits a)) (elems input) ! 0)))\<rparr>
         \<noteq> Continue u"
proof -
  from len_elems [OF assms(1)] obtain xs where xs: "input = Some xs" "elems input = xs"
    by blast
  from assms(1) have n: "\<not> length xs < 2" "len input = length xs"
    by (simp_all add: xs(1) len_def)
  from assms(2) have "validate (Some xs) = None"
    by (simp add: xs)
  from validate_None [OF this]
  obtain L where L: "0 < L" and lens: "\<forall>a\<in>set xs. Len (AggregationBits a) = L"
    and hdL: "Len (AggregationBits (hd xs)) = L" and ne: "xs \<noteq> []"
    by blast
  let ?cs = "map AggregationBits xs"
  let ?init = "\<lparr>oatts = map Some xs, cands = map (\<lambda>a. Some (AggregationBits a)) xs,
                coff = 0, clen = length xs, alen = 0, uoff = 0, ulen = length xs,
                coveredBitsSoFar = NewBitlist64
                  (Len (the (map (\<lambda>a. Some (AggregationBits a)) xs ! 0)))\<rparr>"
  have first: "Len (the (map (\<lambda>a. Some (AggregationBits a)) xs ! 0)) = L"
    using ne hdL by (cases xs) auto
  have "optRound sfb agg ?init \<noteq> Continue u"
  proof (rule optRound_never_continues [where n = "length xs" and cs = ?cs and L = L])
    show "\<forall>a\<in>set (oatts ?init). a \<noteq> None"
      by auto
    show "cands ?init = map Some ?cs"
      by (simp add: comp_def)
    show "\<forall>c\<in>set ?cs. length c = L"
      using lens by (auto simp: Len_def)
    show "coveredBitsSoFar ?init = NewBitlist64 L"
      by (simp add: first)
  qed (use n L in simp_all)
  then show ?thesis
    by (simp add: xs(2) n(2))
qed

lemma optLoop_first_round:
  assumes "\<not> len input < 2" and "validate input = None"
  shows "optLoop sfb agg input
         = (1, optRound sfb agg
                 \<lparr>oatts = map Some (elems input),
                  cands = map (\<lambda>a. Some (AggregationBits a)) (elems input),
                  coff = 0, clen = len input, alen = 0, uoff = 0, ulen = len input,
                  coveredBitsSoFar = NewBitlist64
                    (Len (the (map (\<lambda>a. Some (AggregationBits a)) (elems input) ! 0)))\<rparr>)"
proof -
  from assms(1) have "0 < len input div 2"
    by simp
  then show ?thesis
    unfolding optLoop_def Let_def
    by (rule rounds_first) (simp add: optRound_initial [OF assms])
qed

text \<open>
  C1: on the two attestations 1100 and 0011, \<^verbatim>\<open>MaxCoverAttestationAggregation\<close> returns their
  aggregate 1111, which covers what the input covers, and
  \<^verbatim>\<open>optMaxCoverAttestationAggregation\<close> panics: \<^verbatim>\<open>rearrangeProcessedAttestations\<close> gets the
  slice of candidates after \<^verbatim>\<open>candidates = candidates[1:]\<close> and indexes it with positions
  of the array of attestations.
\<close>

theorem opt_panics_on_disjoint_pair:
  "MaxCoverAttestationAggregation decodeSum encodeSum (Some [att ''1100'' [1], att ''0011'' [2]])
     = Some \<lparr>returned = Some [att ''1111'' [3]], err = None,
             caller = [att ''1100'' [1], att ''0011'' [2]]\<rparr>
   \<and> optMaxCoverAttestationAggregation decodeSum encodeSum
       (Some [att ''1100'' [1], att ''0011'' [2]]) = None"
  by code_simp

text \<open>
  C2: on the three attestations 100100, 010010 and 001000 the two engines do not give the
  same coverages: \<^verbatim>\<open>MaxCoverAttestationAggregation\<close> returns the aggregate 111110,
  \<^verbatim>\<open>optMaxCoverAttestationAggregation\<close> panics.
\<close>

theorem engines_differ_on_scenario:
  "map_option (\<lambda>r. map_option (\<lambda>out. mset (map AggregationBits out)) (returned r))
     (MaxCoverAttestationAggregation decodeSum encodeSum
        (Some [att ''100100'' [1], att ''010010'' [2], att ''001000'' [4]]))
     = Some (Some {#bits ''111110''#})
   \<and> map_option
       (\<lambda>r. map_option (\<lambda>out. mset (map (map_option AggregationBits) out)) (returned r))
       (optMaxCoverAttestationAggregation decodeSum encodeSum
          (Some [att ''100100'' [1], att ''010010'' [2], att ''001000'' [4]]))
     = None"
  by code_simp

subsection \<open>How the loops end\<close>

text \<open>
  A round breaks only at one of the two \<^verbatim>\<open>break\<close> statements, and leaves the state as it is.
\<close>

lemma aggregationRound_Break_cases:
  "aggregationRound sfb agg n st = Break t \<Longrightarrow>
     t = st \<and> (length (unaggregated st) < 2
       \<or> (\<exists>solution. Cover (NewMaxCover (unaggregated st)) n = Inr solution
            \<and> length (Keys solution) < 2))"
  by (auto simp: aggregationRound_def split: if_splits sum.splits option.splits bool.splits)

lemma removeProcessed_Break: "removeProcessed st sel \<noteq> Break t"
  by (auto simp: removeProcessed_def Let_def split: option.splits)

lemma optRound_Break_cases:
  "optRound sfb agg st = Break t \<Longrightarrow>
     t = st \<and> (ulen st < 2
       \<or> (\<exists>selectedKeys cov.
             MaxCover (slice (coff st) (clen st) (cands st)) (clen st) = Inr (selectedKeys, cov)
             \<and> Count selectedKeys < 2))"
  by (auto simp: optRound_def removeProcessed_Break
      split: if_splits sum.splits option.splits prod.splits)

text \<open>
  The keys that the solver selects are distinct positions of the candidate list, so
  \<^verbatim>\<open>selectComplementUsingKeys\<close> removes as many attestations as there are keys: a round that
  completes removes at least 2 attestations from \<open>unaggregated\<close>.
\<close>

lemma greedy_keys:
  assumes "greedy cs k sel covered = (sel', covered')"
    and "distinct sel" and "\<forall>i\<in>set sel. i < length cs"
  shows "distinct sel' \<and> (\<forall>i\<in>set sel'. i < length cs)"
  using assms
proof (induction k arbitrary: sel covered)
  case 0
  then show ?case by simp
next
  case (Suc k)
  show ?case
  proof (cases "best cs (eligible cs sel)")
    case None
    with Suc.prems show ?thesis by simp
  next
    case (Some i)
    then have "i \<in> set (eligible cs sel)"
      by (rule best_in)
    then have i: "i < length cs" "i \<notin> set sel"
      by (simp_all add: eligible_def)
    show ?thesis
    proof (cases "newBits (cs ! i) covered = 0")
      case True
      with Some Suc.prems show ?thesis by simp
    next
      case False
      with Some Suc.prems(1)
      have run: "greedy cs k (sel @ [i]) (map2 (\<lambda>x y. x \<or> y) covered (cs ! i))
                   = (sel', covered')"
        by simp
      from i Suc.prems(2,3) have "distinct (sel @ [i])" and "\<forall>j\<in>set (sel @ [i]). j < length cs"
        by auto
      from Suc.IH [OF run this] show ?thesis .
    qed
  qed
qed

lemma Cover_keys:
  assumes "Cover cs k = Inr solution"
  shows "distinct (Keys solution) \<and> (\<forall>i\<in>set (Keys solution). i < length cs)"
proof -
  from assms obtain sel cov where s: "solve (map Some cs) k = Inr (sel, cov)"
    and keys: "Keys solution = sel"
    by (auto simp: Cover_def split: sum.splits prod.splits)
  from s have "greedy (map the (map Some cs)) k [] (replicate (Len (the (hd (map Some cs)))) False)
                 = (sel, cov)"
    by (auto simp: solve_def split: if_splits)
  from greedy_keys [OF this] show ?thesis
    by (simp add: keys)
qed

lemma keyPosition_None: "keyPosition ks key = None \<longleftrightarrow> key \<notin> set ks"
  by (induction ks) auto

lemma foundInKeys_distinct:
  assumes "foundInKeys ks key = (found, ks')" and "distinct ks"
  shows "distinct ks' \<and> set ks' = set ks - {key} \<and> (found \<longleftrightarrow> key \<in> set ks)"
proof (cases "keyPosition ks key")
  case None
  with assms keyPosition_None [of ks key] show ?thesis
    by (auto simp: foundInKeys_def)
next
  case (Some i)
  from keyPosition_Some [OF Some] have i: "i < length ks" and key: "ks ! i = key"
    by auto
  then have mem: "key \<in> set ks"
    by auto
  from i obtain xs l where ks: "ks = xs @ [l]"
    by (cases ks rule: rev_cases) auto
  from assms(2) have dx: "distinct xs" and l: "l \<notin> set xs"
    by (auto simp: ks)
  from assms(1) Some have found: "found" and ks': "ks' = butlast (ks[i := last ks])"
    by (auto simp: foundInKeys_def)
  show ?thesis
  proof (cases "i = length xs")
    case True
    with key have "key = l"
      by (simp add: ks)
    moreover from True have "ks' = xs"
      by (simp add: ks' ks)
    ultimately show ?thesis
      using dx l found mem by (auto simp: ks)
  next
    case False
    with i have ix: "i < length xs"
      by (simp add: ks)
    with key have kx: "xs ! i = key"
      by (simp add: ks nth_append)
    from ix have "ks' = xs[i := l]"
      by (simp add: ks' ks list_update_append)
    moreover have "distinct (xs[i := l])"
      using dx l by (simp add: distinct_list_update)
    moreover have "set (xs[i := l]) = insert l (set xs - {xs ! i})"
      using dx ix by (rule set_update_distinct)
    moreover have "key \<noteq> l"
      using kx ix l by auto
    ultimately show ?thesis
      using found mem kx by (auto simp: ks)
  qed
qed

lemma selectComplement_fold_count:
  assumes "fold selectComplementStep [0..<n] (keys, al, 0) = (ks, arr, m)"
    and "distinct keys"
  shows "distinct ks \<and> set ks = set keys - {0..<n}
       \<and> m + card (set keys \<inter> {0..<n}) = n"
  using assms(1)
proof (induction n arbitrary: ks arr m)
  case 0
  with assms(2) show ?case by simp
next
  case (Suc n)
  obtain ks0 arr0 m0
    where prev: "fold selectComplementStep [0..<n] (keys, al, 0) = (ks0, arr0, m0)"
    by (cases "fold selectComplementStep [0..<n] (keys, al, 0)") auto
  from Suc.IH [OF prev]
  have d0: "distinct ks0" and s0: "set ks0 = set keys - {0..<n}"
    and m0: "m0 + card (set keys \<inter> {0..<n}) = n"
    by blast+
  from Suc.prems prev have step: "selectComplementStep n (ks0, arr0, m0) = (ks, arr, m)"
    by simp
  obtain found ks1 where f: "foundInKeys ks0 n = (found, ks1)"
    by (cases "foundInKeys ks0 n") blast
  from foundInKeys_distinct [OF f d0]
  have d1: "distinct ks1" and s1: "set ks1 = set ks0 - {n}" and found: "found \<longleftrightarrow> n \<in> set ks0"
    by blast+
  have mem: "n \<in> set ks0 \<longleftrightarrow> n \<in> set keys"
    unfolding s0 by simp
  have set1: "set ks1 = set keys - {0..<Suc n}"
    unfolding s1 s0 by (auto simp: less_Suc_eq)
  show ?case
  proof (cases found)
    case True
    with step f have eq: "ks = ks1" "m = m0"
      by (simp_all add: selectComplementStep_def)
    from True found mem have "n \<in> set keys"
      by blast
    then have ins: "set keys \<inter> {0..<Suc n} = insert n (set keys \<inter> {0..<n})"
      by (auto simp: less_Suc_eq)
    have "finite (set keys \<inter> {0..<n})" and "n \<notin> set keys \<inter> {0..<n}"
      by simp_all
    then have "card (insert n (set keys \<inter> {0..<n})) = Suc (card (set keys \<inter> {0..<n}))"
      by (rule card_insert_disjoint)
    then have "card (set keys \<inter> {0..<Suc n}) = Suc (card (set keys \<inter> {0..<n}))"
      unfolding ins .
    with m0 have "m + card (set keys \<inter> {0..<Suc n}) = Suc n"
      unfolding eq by linarith
    with d1 set1 show ?thesis
      unfolding eq by blast
  next
    case False
    with step f have eq: "ks = ks1" "m = Suc m0"
      by (simp_all add: selectComplementStep_def)
    from False found mem have "n \<notin> set keys"
      by blast
    then have "set keys \<inter> {0..<Suc n} = set keys \<inter> {0..<n}"
      by (auto simp: less_Suc_eq)
    with m0 have "m + card (set keys \<inter> {0..<Suc n}) = Suc n"
      unfolding eq by simp
    with d1 set1 show ?thesis
      unfolding eq by blast
  qed
qed

lemma selectComplementUsingKeys_length:
  assumes "selectComplementUsingKeys al keys = (filtered, arr)"
    and "distinct keys" and "\<forall>i\<in>set keys. i < length al"
  shows "length filtered + length keys = length al"
proof -
  obtain ks m where f: "fold selectComplementStep [0..<length al] (keys, al, 0) = (ks, arr, m)"
    and filtered: "filtered = take m arr"
    using assms(1) by (auto simp: selectComplementUsingKeys_def split: prod.splits)
  from selectComplement_fold_complete [OF f] have "m \<le> length al" and "length arr = length al"
    by blast+
  then have "length filtered = m"
    by (simp add: filtered)
  moreover from assms(3) have "set keys \<inter> {0..<length al} = set keys"
    by auto
  with selectComplement_fold_count [OF f assms(2)]
  have "m + card (set keys) = length al"
    by simp
  moreover from assms(2) have "card (set keys) = length keys"
    by (rule distinct_card)
  ultimately show ?thesis
    by simp
qed

lemma removeSelected_length:
  assumes "Cover (NewMaxCover (unaggregated st)) n = Inr solution"
    and that: "unaggregated st' = unaggregated st"
  shows "length (unaggregated (removeSelected st' (Keys solution))) + length (Keys solution)
           = length (unaggregated st)"
proof -
  from Cover_keys [OF assms(1)]
  have k: "distinct (Keys solution)" "\<forall>i\<in>set (Keys solution). i < length (unaggregated st)"
    by (simp_all add: NewMaxCover_def)
  obtain filtered arr
    where sc: "selectComplementUsingKeys (unaggregated st) (Keys solution) = (filtered, arr)"
    by (cases "selectComplementUsingKeys (unaggregated st) (Keys solution)") auto
  from selectComplementUsingKeys_length [OF sc k] show ?thesis
    by (simp add: removeSelected_fields that sc)
qed

lemma aggregationRound_progress:
  assumes "aggregationRound sfb agg n st = Continue t"
  shows "length (unaggregated t) + 2 \<le> length (unaggregated st)"
proof -
  from assms obtain solution st'
    where c: "Cover (NewMaxCover (unaggregated st)) n = Inr solution"
      and k: "\<not> length (Keys solution) < 2"
      and t: "t = removeSelected st' (Keys solution)" and u: "unaggregated st' = unaggregated st"
    by (auto simp: aggregationRound_def split: if_splits sum.splits option.splits bool.splits)
  from removeSelected_length [OF c u] k show ?thesis
    by (simp add: t)
qed

text \<open>
  So \<open>n div 2\<close> rounds are enough: when the loop of \<^verbatim>\<open>MaxCoverAttestationAggregation\<close> is left
  by a \<^verbatim>\<open>break\<close> or at its bound, fewer than 2 attestations are unaggregated or the solver
  selects fewer than 2 of them.
\<close>

lemma aggregationLoop_exhausted:
  assumes "snd (aggregationLoop sfb agg input) = Break st"
  shows "length (unaggregated st) < 2
       \<or> (\<exists>solution. Cover (NewMaxCover (unaggregated st)) (len input) = Inr solution
            \<and> length (Keys solution) < 2)"
proof -
  let ?body = "aggregationRound sfb agg (len input)"
  let ?init = "\<lparr>aggregated = [], unaggregated = elems input, atts = elems input\<rparr>"
  let ?P = "\<lambda>j u. 2 * j + length (unaggregated u) \<le> len input"
  obtain k e where ke: "rounds 0 (len input div 2) ?body ?init = (k, e)"
    by (cases "rounds 0 (len input div 2) ?body ?init") auto
  with assms have e: "e = Break st"
    by (simp add: aggregationLoop_def)
  have "(\<exists>u. ?body u = Break st) \<or> ?P (len input div 2) st"
  proof (rule rounds_Break_exhausted [OF ke [unfolded e], where P = ?P])
    show "?P 0 ?init"
      by (cases input) (simp_all add: len_def elems_def)
  next
    fix j u v
    assume "?P j u" and "?body u = Continue v"
    with aggregationRound_progress [of sfb agg "len input" u v] show "?P (Suc j) v"
      by simp
  qed simp
  then show ?thesis
  proof
    assume "\<exists>u. ?body u = Break st"
    then obtain u where "?body u = Break st"
      by blast
    from aggregationRound_Break_cases [OF this] show ?thesis
      by blast
  next
    assume "?P (len input div 2) st"
    then have "length (unaggregated st) < 2"
      by presburger
    then show ?thesis
      by simp
  qed
qed

lemma optLoop_Break:
  assumes "\<not> len input < 2" and "validate input = None"
    and "snd (optLoop sfb agg input) = Break st"
  shows "ulen st < 2
       \<or> (\<exists>selectedKeys cov.
             MaxCover (slice (coff st) (clen st) (cands st)) (clen st) = Inr (selectedKeys, cov)
             \<and> Count selectedKeys < 2)"
proof -
  from assms(3) optLoop_first_round [OF assms(1,2), of sfb agg]
  obtain u where "optRound sfb agg u = Break st"
    by auto
  from optRound_Break_cases [OF this] show ?thesis
    by blast
qed

text \<open>
  A round of \<^verbatim>\<open>MaxCoverAttestationAggregation\<close> appends at most one aggregate, so the loop
  leaves at most as many aggregates as it entered rounds.
\<close>

lemma aggregationRound_one_aggregate:
  "aggregationRound sfb agg n st = Continue t
     \<Longrightarrow> length (aggregated t) \<le> Suc (length (aggregated st))"
  by (auto simp: aggregationRound_def removeSelected_fields
      split: if_splits sum.splits option.splits bool.splits)

lemma aggregationLoop_aggregates:
  assumes "snd (aggregationLoop sfb agg input) = Break st"
  shows "length (aggregated st) \<le> fst (aggregationLoop sfb agg input)"
proof -
  let ?body = "aggregationRound sfb agg (len input)"
  let ?init = "\<lparr>aggregated = [], unaggregated = elems input, atts = elems input\<rparr>"
  obtain k e where ke: "rounds 0 (len input div 2) ?body ?init = (k, e)"
    by (cases "rounds 0 (len input div 2) ?body ?init") auto
  with assms have e: "e = Break st"
    by (simp add: aggregationLoop_def)
  have "length (aggregated st) \<le> k"
  proof (rule rounds_Break_counted [OF ke [unfolded e],
        where P = "\<lambda>j u. length (aggregated u) \<le> j"])
    show "length (aggregated ?init) \<le> 0"
      by simp
  next
    fix j u v
    assume "length (aggregated u) \<le> j" and "?body u = Continue v"
    with aggregationRound_one_aggregate [of sfb agg "len input" u v]
    show "length (aggregated v) \<le> Suc j"
      by simp
  next
    fix j u v
    assume "length (aggregated u) \<le> j" and "?body u = Break v"
    with aggregationRound_Break [of sfb agg "len input" u v]
    show "length (aggregated v) \<le> Suc j"
      by simp
  qed
  with ke show ?thesis
    by (simp add: aggregationLoop_def)
qed

text \<open>
  Every call of \<^verbatim>\<open>MaxCoverAttestationAggregation\<close> returns: it does not panic.
\<close>

lemma MaxCoverAttestationAggregation_returns:
  "\<exists>r. MaxCoverAttestationAggregation sfb agg input = Some r"
proof (cases "len input < 2")
  case True
  then show ?thesis
    by (simp add: MaxCoverAttestationAggregation_def)
next
  case big: False
  show ?thesis
  proof (cases "validate input")
    case (Some e)
    with big show ?thesis
      by (simp add: MaxCoverAttestationAggregation_def)
  next
    case None
    from MaxCoverAttestationAggregation_conserves_coverage [OF big None, of sfb agg]
    show ?thesis
      by blast
  qed
qed

text \<open>
  C7: for every input of \<open>n\<close> attestations, the loop of \<^verbatim>\<open>MaxCoverAttestationAggregation\<close>
  enters its body at most \<open>n div 2\<close> times, and the call returns. When the loop is left, by a
  \<^verbatim>\<open>break\<close> or at its bound, fewer than 2 attestations are unaggregated or the solver
  selects fewer than 2 of them; and in each of these two cases a round breaks, whatever
  the state. A round that completes removes at least 2 attestations from \<open>unaggregated\<close>
  and appends at most 1 aggregate, and the loop leaves at most as many aggregates as it
  entered rounds. The loop of \<^verbatim>\<open>optMaxCoverAttestationAggregation\<close> enters its body at most
  \<open>n div 2\<close> times too; on an input of at least 2 attestations that passes validation it
  enters it exactly once, and is left under the same condition; and in each of the two
  cases a round of it breaks, whatever the state.
\<close>

theorem loop_rounds_at_most_half:
  "fst (aggregationLoop sfb agg input) \<le> len input div 2
   \<and> (\<exists>r. MaxCoverAttestationAggregation sfb agg input = Some r)
   \<and> (\<forall>st. snd (aggregationLoop sfb agg input) = Break st \<longrightarrow>
          length (unaggregated st) < 2
          \<or> (\<exists>solution. Cover (NewMaxCover (unaggregated st)) (len input) = Inr solution
               \<and> length (Keys solution) < 2))
   \<and> (\<forall>st. length (unaggregated st) < 2 \<longrightarrow>
          aggregationRound sfb agg (len input) st = Break st)
   \<and> (\<forall>st solution.
          Cover (NewMaxCover (unaggregated st)) (len input) = Inr solution
          \<and> length (Keys solution) < 2 \<longrightarrow>
          aggregationRound sfb agg (len input) st = Break st)
   \<and> (\<forall>st t. aggregationRound sfb agg (len input) st = Continue t \<longrightarrow>
          length (unaggregated t) + 2 \<le> length (unaggregated st)
          \<and> length (aggregated t) \<le> length (aggregated st) + 1)
   \<and> (\<forall>st. snd (aggregationLoop sfb agg input) = Break st \<longrightarrow>
          length (aggregated st) \<le> fst (aggregationLoop sfb agg input))
   \<and> fst (optLoop sfb agg input) \<le> len input div 2
   \<and> (\<not> len input < 2 \<and> validate input = None \<longrightarrow> fst (optLoop sfb agg input) = 1)
   \<and> (\<forall>st. \<not> len input < 2 \<and> validate input = None
            \<and> snd (optLoop sfb agg input) = Break st \<longrightarrow>
          ulen st < 2
          \<or> (\<exists>selectedKeys cov.
                MaxCover (slice (coff st) (clen st) (cands st)) (clen st)
                  = Inr (selectedKeys, cov)
                \<and> Count selectedKeys < 2))
   \<and> (\<forall>st. ulen st < 2 \<longrightarrow> optRound sfb agg st = Break st)
   \<and> (\<forall>st selectedKeys cov.
          MaxCover (slice (coff st) (clen st) (cands st)) (clen st) = Inr (selectedKeys, cov)
          \<and> Count selectedKeys < 2 \<longrightarrow>
          optRound sfb agg st = Break st)"
proof (intro conjI allI impI)
  show "fst (aggregationLoop sfb agg input) \<le> len input div 2"
    by (simp add: aggregationLoop_def rounds_count)
  show "\<exists>r. MaxCoverAttestationAggregation sfb agg input = Some r"
    by (rule MaxCoverAttestationAggregation_returns)
  show "fst (optLoop sfb agg input) \<le> len input div 2"
    by (simp add: optLoop_def Let_def rounds_count)
next
  fix st
  assume "snd (aggregationLoop sfb agg input) = Break st"
  then show "length (unaggregated st) < 2
       \<or> (\<exists>solution. Cover (NewMaxCover (unaggregated st)) (len input) = Inr solution
            \<and> length (Keys solution) < 2)"
    by (rule aggregationLoop_exhausted)
next
  fix st :: state
  assume "length (unaggregated st) < 2"
  then show "aggregationRound sfb agg (len input) st = Break st"
    by (rule aggregationRound_few)
next
  fix st :: state and solution
  assume "Cover (NewMaxCover (unaggregated st)) (len input) = Inr solution
            \<and> length (Keys solution) < 2"
  then show "aggregationRound sfb agg (len input) st = Break st"
    by (simp add: aggregationRound_small_selection)
next
  fix st t
  assume round: "aggregationRound sfb agg (len input) st = Continue t"
  then show "length (unaggregated t) + 2 \<le> length (unaggregated st)"
    by (rule aggregationRound_progress)
  from aggregationRound_one_aggregate [OF round]
  show "length (aggregated t) \<le> length (aggregated st) + 1"
    by simp
next
  fix st
  assume "snd (aggregationLoop sfb agg input) = Break st"
  then show "length (aggregated st) \<le> fst (aggregationLoop sfb agg input)"
    by (rule aggregationLoop_aggregates)
next
  assume "\<not> len input < 2 \<and> validate input = None"
  then show "fst (optLoop sfb agg input) = 1"
    by (simp add: optLoop_first_round)
next
  fix st
  assume "\<not> len input < 2 \<and> validate input = None
            \<and> snd (optLoop sfb agg input) = Break st"
  then show "ulen st < 2
       \<or> (\<exists>selectedKeys cov.
             MaxCover (slice (coff st) (clen st) (cands st)) (clen st) = Inr (selectedKeys, cov)
             \<and> Count selectedKeys < 2)"
    using optLoop_Break [of input sfb agg st] by blast
next
  fix st :: optState
  assume "ulen st < 2"
  then show "optRound sfb agg st = Break st"
    by (rule optRound_few)
next
  fix st :: optState and selectedKeys cov
  assume "MaxCover (slice (coff st) (clen st) (cands st)) (clen st) = Inr (selectedKeys, cov)
            \<and> Count selectedKeys < 2"
  then show "optRound sfb agg st = Break st"
    by (simp add: optRound_small_selection)
qed

theorem loop_rounds_at_most_half_witness:
  "fst (aggregationLoop decodeSum encodeSum
          (Some [att ''1110'' [16], att ''0111'' [2], att ''1011'' [4], att ''1101'' [8]])) \<le> 2
   \<and> (\<exists>r. MaxCoverAttestationAggregation decodeSum encodeSum
             (Some [att ''1110'' [16], att ''0111'' [2], att ''1011'' [4], att ''1101'' [8]])
           = Some r)
   \<and> (\<exists>solution.
         Cover (NewMaxCover [att ''1110'' [16], att ''0111'' [2], att ''1011'' [4],
                             att ''1101'' [8]]) 4 = Inr solution
         \<and> length (Keys solution) < 2)
   \<and> aggregationRound decodeSum encodeSum 4
        \<lparr>aggregated = [att ''1111'' [3]], unaggregated = [att ''1000'' [4]],
         atts = [att ''1000'' [4], att ''0011'' [2], att ''1000'' [4]]\<rparr>
      = Break \<lparr>aggregated = [att ''1111'' [3]], unaggregated = [att ''1000'' [4]],
               atts = [att ''1000'' [4], att ''0011'' [2], att ''1000'' [4]]\<rparr>
   \<and> fst (aggregationLoop decodeSum encodeSum
            (Some [att ''1100'' [16], att ''0011'' [2], att ''1000'' [4], att ''0100'' [8]])) = 2
   \<and> length (unaggregated
         \<lparr>aggregated = [att ''1111'' [18]], unaggregated = [att ''1000'' [4], att ''0100'' [8]],
          atts = [att ''1000'' [4], att ''0100'' [8], att ''1000'' [4], att ''0100'' [8]]\<rparr>) + 2
       \<le> length [att ''1100'' [16], att ''0011'' [2], att ''1000'' [4], att ''0100'' [8]]
   \<and> fst (optLoop decodeSum encodeSum
            (Some [att ''1110'' [16], att ''0111'' [2], att ''1011'' [4], att ''1101'' [8]])) = 1
   \<and> (\<exists>selectedKeys cov.
         MaxCover [Some (bits ''1110''), Some (bits ''0111''), Some (bits ''1011''),
                   Some (bits ''1101'')] 4 = Inr (selectedKeys, cov)
         \<and> Count selectedKeys < 2)"
proof (intro conjI)
  let ?xs = "[att ''1110'' [16], att ''0111'' [2], att ''1011'' [4], att ''1101'' [8]]"
  let ?ys = "[att ''1100'' [16], att ''0011'' [2], att ''1000'' [4], att ''0100'' [8]]"
  let ?init = "\<lparr>aggregated = [], unaggregated = ?xs, atts = ?xs\<rparr>"
  let ?oinit = "\<lparr>oatts = map Some ?xs, cands = map (\<lambda>a. Some (AggregationBits a)) ?xs,
                 coff = 0, clen = 4, alen = 0, uoff = 0, ulen = 4,
                 coveredBitsSoFar = bits ''0000''\<rparr>"
  let ?st = "\<lparr>aggregated = [att ''1111'' [3]], unaggregated = [att ''1000'' [4]],
              atts = [att ''1000'' [4], att ''0011'' [2], att ''1000'' [4]]\<rparr>"
  let ?end = "\<lparr>aggregated = [att ''1111'' [18], att ''1100'' [12]], unaggregated = [],
               atts = [att ''1000'' [4], att ''0100'' [8], att ''1000'' [4],
                       att ''0100'' [8]]\<rparr>"
  let ?mid = "\<lparr>aggregated = [att ''1111'' [18]],
               unaggregated = [att ''1000'' [4], att ''0100'' [8]],
               atts = [att ''1000'' [4], att ''0100'' [8], att ''1000'' [4],
                       att ''0100'' [8]]\<rparr>"
  note inst = loop_rounds_at_most_half [of decodeSum encodeSum "Some ?xs"]
  note inst' = loop_rounds_at_most_half [of decodeSum encodeSum "Some ?ys"]
  from inst [THEN conjunct1]
  show "fst (aggregationLoop decodeSum encodeSum (Some ?xs)) \<le> 2"
    by (simp add: len_def)
  from inst [THEN conjunct2, THEN conjunct1]
  show "\<exists>r. MaxCoverAttestationAggregation decodeSum encodeSum (Some ?xs) = Some r" .
  have loop: "aggregationLoop decodeSum encodeSum (Some ?xs) = (1, Break ?init)"
    by code_simp
  have "snd (aggregationLoop decodeSum encodeSum (Some ?xs)) = Break ?init"
    by (simp add: loop)
  with inst have "length (unaggregated ?init) < 2
       \<or> (\<exists>solution. Cover (NewMaxCover (unaggregated ?init)) (len (Some ?xs)) = Inr solution
            \<and> length (Keys solution) < 2)"
    by blast
  then show "\<exists>solution. Cover (NewMaxCover ?xs) 4 = Inr solution \<and> length (Keys solution) < 2"
    by (simp add: len_def eval_nat_numeral)
  have "length (unaggregated ?st) < 2"
    by simp
  with inst have "aggregationRound decodeSum encodeSum (len (Some ?xs)) ?st = Break ?st"
    by blast
  then show "aggregationRound decodeSum encodeSum 4 ?st = Break ?st"
    by (simp add: len_def eval_nat_numeral)
  have "snd (aggregationLoop decodeSum encodeSum (Some ?ys)) = Break ?end"
    by code_simp
  with inst' have "length (aggregated ?end) \<le> fst (aggregationLoop decodeSum encodeSum (Some ?ys))"
    by blast
  moreover from inst' [THEN conjunct1]
  have "fst (aggregationLoop decodeSum encodeSum (Some ?ys)) \<le> 2"
    by (simp add: len_def)
  ultimately show "fst (aggregationLoop decodeSum encodeSum (Some ?ys)) = 2"
    by simp
  have "aggregationRound decodeSum encodeSum (len (Some ?ys))
          \<lparr>aggregated = [], unaggregated = ?ys, atts = ?ys\<rparr> = Continue ?mid"
    by code_simp
  with inst' have "length (unaggregated ?mid) + 2
      \<le> length (unaggregated \<lparr>aggregated = [], unaggregated = ?ys, atts = ?ys\<rparr>)"
    by blast
  then show "length (unaggregated ?mid) + 2 \<le> length ?ys"
    by simp
  have valid: "\<not> len (Some ?xs) < 2 \<and> validate (Some ?xs) = None"
    by code_simp
  with inst show "fst (optLoop decodeSum encodeSum (Some ?xs)) = 1"
    by blast
  have oloop: "optLoop decodeSum encodeSum (Some ?xs) = (1, Break ?oinit)"
    by code_simp
  have "\<not> len (Some ?xs) < 2 \<and> validate (Some ?xs) = None
          \<and> snd (optLoop decodeSum encodeSum (Some ?xs)) = Break ?oinit"
    using valid by (simp add: oloop)
  with inst have "ulen ?oinit < 2
       \<or> (\<exists>selectedKeys cov.
             MaxCover (slice (coff ?oinit) (clen ?oinit) (cands ?oinit)) (clen ?oinit)
               = Inr (selectedKeys, cov)
             \<and> Count selectedKeys < 2)"
    by blast
  then show "\<exists>selectedKeys cov.
         MaxCover [Some (bits ''1110''), Some (bits ''0111''), Some (bits ''1011''),
                   Some (bits ''1101'')] 4 = Inr (selectedKeys, cov)
         \<and> Count selectedKeys < 2"
    by (simp add: slice_def att_def len_def eval_nat_numeral)
qed

subsection \<open>What a call returns with an error\<close>

text \<open>
  A round that completes leaves the aggregates as they are or appends the aggregate that
  \<^verbatim>\<open>attList.aggregate\<close> made of the selected attestations; so the aggregates of a state stay
  where they are in every later state.
\<close>

lemma aggregationRound_Continue_aggregated:
  "aggregationRound sfb agg n st = Continue t \<Longrightarrow> \<exists>more. aggregated t = aggregated st @ more"
  by (auto simp: aggregationRound_def removeSelected_fields
      split: if_splits sum.splits option.splits bool.splits)

lemma aggregationRound_materializes:
  "aggregationRound sfb agg n st = Continue t \<Longrightarrow>
     aggregated t = aggregated st
     \<or> (\<exists>solution selected a.
           Cover (NewMaxCover (unaggregated st)) n = Inr solution
           \<and> selectUsingKeys (unaggregated st) (Keys solution) = Some selected
           \<and> aggregate sfb agg selected (Coverage solution) = Inr a
           \<and> aggregated t = aggregated st @ [a])"
  by (auto simp: aggregationRound_def removeSelected_fields
      split: if_splits sum.splits option.splits bool.splits)

lemma reaches_aggregated:
  "reaches (aggregationRound sfb agg n) u t \<Longrightarrow> \<exists>more. aggregated t = aggregated u @ more"
proof (induction rule: reaches.induct)
  case (reaches_start s)
  then show ?case by simp
next
  case (reaches_round s t u)
  from aggregationRound_Continue_aggregated [OF reaches_round.hyps(2)] reaches_round.IH
  show ?case by auto
qed

lemma optFailed_initial:
  "n = length xs \<Longrightarrow>
   optFailed \<lparr>oatts = xs, cands = cs, coff = c, clen = k, alen = 0, uoff = 0, ulen = n,
              coveredBitsSoFar = b\<rparr> e
     = \<lparr>returned = Some xs, err = Some e, caller = xs\<rparr>"
  by (simp add: optFailed_def appendInPlace_def slice_def setSlice_def)

text \<open>
  A call of \<^verbatim>\<open>MaxCoverAttestationAggregation\<close> that returns an error after validation returns
  from a round that the loop has reached. A call of \<^verbatim>\<open>optMaxCoverAttestationAggregation\<close>
  that does so returns from its first round.
\<close>

lemma MaxCoverAttestationAggregation_error_state:
  assumes "\<not> len input < 2" and "validate input = None"
    and "MaxCoverAttestationAggregation sfb agg input = Some r" and "err r \<noteq> None"
  shows "\<exists>st. reaches (aggregationRound sfb agg (len input))
                \<lparr>aggregated = [], unaggregated = elems input, atts = elems input\<rparr> st
            \<and> aggregationRound sfb agg (len input) st = Return r
            \<and> returned r = Some (aggregated st @ unaggregated st)
            \<and> coverage (aggregated st @ unaggregated st) = coverage (elems input)"
proof -
  from len_elems [OF assms(1)] obtain xs where xs: "input = Some xs" "elems input = xs"
    by blast
  from assms(2) have "validate (Some xs) = None"
    by (simp add: xs)
  from validate_None [OF this]
  obtain L where L: "0 < L" and lens: "\<forall>a\<in>set xs. Len (AggregationBits a) = L"
    by blast
  let ?init = "\<lparr>aggregated = [], unaggregated = xs, atts = xs\<rparr>"
  let ?body = "aggregationRound sfb agg (len input)"
  have init: "conserves xs L ?init"
    using lens by (simp add: conserves_def list_all_iff)
  have "snd (rounds 0 (len input div 2) ?body ?init) = Return r"
  proof (cases "snd (rounds 0 (len input div 2) ?body ?init)")
    case (Return r')
    with assms show ?thesis
      by (simp add: MaxCoverAttestationAggregation_def aggregationLoop_def xs(2))
  next
    case (Continue st)
    with assms finish_err [of st r] show ?thesis
      by (simp add: MaxCoverAttestationAggregation_def aggregationLoop_def xs(2))
  next
    case (Break st)
    with assms finish_err [of st r] show ?thesis
      by (simp add: MaxCoverAttestationAggregation_def aggregationLoop_def xs(2))
  next
    case Panicked
    with assms show ?thesis
      by (simp add: MaxCoverAttestationAggregation_def aggregationLoop_def xs(2))
  qed
  from rounds_Return [OF this]
  obtain t where t: "reaches ?body ?init t" and ret: "?body t = Return r"
    by blast
  from aggregationRound_Return [OF ret] obtain e where "r = failed t e"
    by blast
  then have "returned r = Some (aggregated t @ unaggregated t)"
    by (simp add: returned_failed)
  moreover from reaches_conserves [OF t init L]
  have "coverage (aggregated t @ unaggregated t) = coverage xs"
    by (simp add: conserves_def)
  ultimately show ?thesis
    using t ret by (auto simp: xs(2))
qed

lemma optMaxCoverAttestationAggregation_error_state:
  assumes "\<not> len input < 2" and "validate input = None"
    and "optMaxCoverAttestationAggregation sfb agg input = Some r" and "err r \<noteq> None"
  shows "optRound sfb agg
           \<lparr>oatts = map Some (elems input),
            cands = map (\<lambda>a. Some (AggregationBits a)) (elems input),
            coff = 0, clen = len input, alen = 0, uoff = 0, ulen = len input,
            coveredBitsSoFar = NewBitlist64
              (Len (the (map (\<lambda>a. Some (AggregationBits a)) (elems input) ! 0)))\<rparr>
           = Return r
       \<and> returned r = Some (map Some (elems input))"
proof -
  let ?init = "\<lparr>oatts = map Some (elems input),
                 cands = map (\<lambda>a. Some (AggregationBits a)) (elems input),
                 coff = 0, clen = len input, alen = 0, uoff = 0, ulen = len input,
                 coveredBitsSoFar = NewBitlist64
                   (Len (the (map (\<lambda>a. Some (AggregationBits a)) (elems input) ! 0)))\<rparr>"
  from len_elems [OF assms(1)] obtain xs where xs: "input = Some xs" "elems input = xs"
    by blast
  have n: "len input = length xs"
    by (simp add: xs(1) len_def)
  note loop = optLoop_first_round [OF assms(1,2), of sfb agg]
  have ret: "optRound sfb agg ?init = Return r"
  proof (cases "optRound sfb agg ?init")
    case (Return r')
    with assms loop show ?thesis
      by (simp add: optMaxCoverAttestationAggregation_def validateAttestations_def)
  next
    case (Continue st)
    with optRound_initial [OF assms(1,2), of sfb agg st] show ?thesis
      by simp
  next
    case (Break st)
    with assms loop optFinish_err [of st r] show ?thesis
      by (simp add: optMaxCoverAttestationAggregation_def validateAttestations_def)
  next
    case Panicked
    with assms loop show ?thesis
      by (simp add: optMaxCoverAttestationAggregation_def validateAttestations_def)
  qed
  from optRound_Return [OF ret] obtain e where "r = optFailed ?init e"
    by blast
  then have "returned r = Some (map Some (elems input))"
    by (simp add: optFailed_initial n xs(2))
  with ret show ?thesis
    by simp
qed

text \<open>
  C8: let the input have at least 2 attestations and pass validation. When
  \<^verbatim>\<open>MaxCoverAttestationAggregation\<close> returns a non-nil error, the loop has reached a state \<open>st\<close>
  in which the round returned this result, and the returned list is not nil: it is the
  aggregates of \<open>st\<close> followed by the unaggregated attestations of \<open>st\<close>, which together
  cover what the input covers. Every round that returns, from whatever state, returns a
  non-nil error and the aggregates followed by the unaggregated attestations; a round
  that completes leaves the aggregates as they are or appends the one aggregate it has
  made of the selected attestations; and the aggregates that a state holds are still
  there, in the same order and at the front, in every state that the loop reaches from
  it. When \<^verbatim>\<open>optMaxCoverAttestationAggregation\<close> returns a non-nil error, it is its first round
  that returned: nothing has been aggregated, and the returned list is the whole input.
  Every round of it that returns, from whatever state, returns a non-nil error and
  \<^verbatim>\<open>append(aggregated, unaggregated...)\<close>.
\<close>

theorem error_returns_materialized_aggregates:
  assumes "\<not> len input < 2" and "validate input = None"
  shows "(\<forall>r. MaxCoverAttestationAggregation sfb agg input = Some r \<and> err r \<noteq> None \<longrightarrow>
            (\<exists>st. reaches (aggregationRound sfb agg (len input))
                    \<lparr>aggregated = [], unaggregated = elems input, atts = elems input\<rparr> st
                \<and> aggregationRound sfb agg (len input) st = Return r
                \<and> returned r = Some (aggregated st @ unaggregated st)
                \<and> coverage (aggregated st @ unaggregated st) = coverage (elems input)))
       \<and> (\<forall>st r. aggregationRound sfb agg (len input) st = Return r \<longrightarrow>
            err r \<noteq> None \<and> returned r = Some (aggregated st @ unaggregated st))
       \<and> (\<forall>st t. aggregationRound sfb agg (len input) st = Continue t \<longrightarrow>
            aggregated t = aggregated st
            \<or> (\<exists>solution selected a.
                  Cover (NewMaxCover (unaggregated st)) (len input) = Inr solution
                  \<and> selectUsingKeys (unaggregated st) (Keys solution) = Some selected
                  \<and> aggregate sfb agg selected (Coverage solution) = Inr a
                  \<and> aggregated t = aggregated st @ [a]))
       \<and> (\<forall>st t. reaches (aggregationRound sfb agg (len input)) st t \<longrightarrow>
            (\<exists>more. aggregated t = aggregated st @ more))
       \<and> (\<forall>r. optMaxCoverAttestationAggregation sfb agg input = Some r \<and> err r \<noteq> None \<longrightarrow>
            optRound sfb agg
              \<lparr>oatts = map Some (elems input),
               cands = map (\<lambda>a. Some (AggregationBits a)) (elems input),
               coff = 0, clen = len input, alen = 0, uoff = 0, ulen = len input,
               coveredBitsSoFar = NewBitlist64
                 (Len (the (map (\<lambda>a. Some (AggregationBits a)) (elems input) ! 0)))\<rparr>
              = Return r
            \<and> returned r = Some (map Some (elems input)))
       \<and> (\<forall>st r. optRound sfb agg st = Return r \<longrightarrow>
            err r \<noteq> None
            \<and> returned r
                = Some (slice 0 (alen st) (oatts st) @ slice (uoff st) (ulen st) (oatts st)))"
proof (intro conjI allI impI)
  fix r
  assume "MaxCoverAttestationAggregation sfb agg input = Some r \<and> err r \<noteq> None"
  with MaxCoverAttestationAggregation_error_state [OF assms, of sfb agg r]
  show "\<exists>st. reaches (aggregationRound sfb agg (len input))
                \<lparr>aggregated = [], unaggregated = elems input, atts = elems input\<rparr> st
            \<and> aggregationRound sfb agg (len input) st = Return r
            \<and> returned r = Some (aggregated st @ unaggregated st)
            \<and> coverage (aggregated st @ unaggregated st) = coverage (elems input)"
    by blast
next
  fix st r
  assume "aggregationRound sfb agg (len input) st = Return r"
  from aggregationRound_Return [OF this] obtain e where r: "r = failed st e"
    by blast
  show "err r \<noteq> None"
    by (simp add: r err_failed)
  show "returned r = Some (aggregated st @ unaggregated st)"
    by (simp add: r returned_failed)
next
  fix st t
  assume "aggregationRound sfb agg (len input) st = Continue t"
  then show "aggregated t = aggregated st
       \<or> (\<exists>solution selected a.
             Cover (NewMaxCover (unaggregated st)) (len input) = Inr solution
             \<and> selectUsingKeys (unaggregated st) (Keys solution) = Some selected
             \<and> aggregate sfb agg selected (Coverage solution) = Inr a
             \<and> aggregated t = aggregated st @ [a])"
    by (rule aggregationRound_materializes)
next
  fix st t
  assume "reaches (aggregationRound sfb agg (len input)) st t"
  then show "\<exists>more. aggregated t = aggregated st @ more"
    by (rule reaches_aggregated)
next
  fix r
  assume r: "optMaxCoverAttestationAggregation sfb agg input = Some r \<and> err r \<noteq> None"
  let ?init = "\<lparr>oatts = map Some (elems input),
                 cands = map (\<lambda>a. Some (AggregationBits a)) (elems input),
                 coff = 0, clen = len input, alen = 0, uoff = 0, ulen = len input,
                 coveredBitsSoFar = NewBitlist64
                   (Len (the (map (\<lambda>a. Some (AggregationBits a)) (elems input) ! 0)))\<rparr>"
  from optMaxCoverAttestationAggregation_error_state [OF assms, of sfb agg r] r
  show "optRound sfb agg ?init = Return r" and "returned r = Some (map Some (elems input))"
    by blast+
next
  fix st r
  assume "optRound sfb agg st = Return r"
  from optRound_Return [OF this] obtain e where r: "r = optFailed st e"
    by blast
  show "err r \<noteq> None"
    by (simp add: r err_optFailed)
  show "returned r
          = Some (slice 0 (alen st) (oatts st) @ slice (uoff st) (ulen st) (oatts st))"
    by (simp add: r returned_optFailed)
qed

theorem error_returns_materialized_aggregates_witness:
  "(\<exists>st. reaches (aggregationRound (decodeExcept [9]) encodeSum 4)
            \<lparr>aggregated = [],
             unaggregated = [att ''1100'' [1], att ''0011'' [2], att ''1000'' [9], att ''0100'' [4]],
             atts = [att ''1100'' [1], att ''0011'' [2], att ''1000'' [9], att ''0100'' [4]]\<rparr> st
        \<and> aggregationRound (decodeExcept [9]) encodeSum 4 st
            = Return \<lparr>returned = Some [att ''1111'' [3], att ''1000'' [9], att ''0100'' [4]],
                      err = Some ErrInvalidSignature,
                      caller = [att ''1000'' [9], att ''0100'' [4], att ''1000'' [9],
                                att ''0100'' [4]]\<rparr>
        \<and> Some [att ''1111'' [3], att ''1000'' [9], att ''0100'' [4]]
            = Some (aggregated st @ unaggregated st)
        \<and> coverage (aggregated st @ unaggregated st)
            = coverage [att ''1100'' [1], att ''0011'' [2], att ''1000'' [9], att ''0100'' [4]])
   \<and> (\<exists>solution selected a.
         Cover (NewMaxCover [att ''1100'' [1], att ''0011'' [2], att ''1000'' [9],
                             att ''0100'' [4]]) 4 = Inr solution
         \<and> selectUsingKeys [att ''1100'' [1], att ''0011'' [2], att ''1000'' [9],
                              att ''0100'' [4]] (Keys solution) = Some selected
         \<and> aggregate (decodeExcept [9]) encodeSum selected (Coverage solution) = Inr a
         \<and> [att ''1111'' [3]] = [a])
   \<and> optRound (decodeExcept [9]) encodeSum
        \<lparr>oatts = [Some (att ''1100'' [9]), Some (att ''0011'' [2])],
         cands = [Some (bits ''1100''), Some (bits ''0011'')],
         coff = 0, clen = 2, alen = 0, uoff = 0, ulen = 2,
         coveredBitsSoFar = bits ''0000''\<rparr>
        = Return \<lparr>returned = Some [Some (att ''1100'' [9]), Some (att ''0011'' [2])],
                  err = Some ErrInvalidSignature,
                  caller = [Some (att ''1100'' [9]), Some (att ''0011'' [2])]\<rparr>
   \<and> returned (optFailed
        \<lparr>oatts = [Some (att ''110000'' [3]), Some (att ''001000'' [9]),
                  Some (att ''000100'' [4])],
         cands = [Some (bits ''110000''), Some (bits ''001000''), Some (bits ''000100'')],
         coff = 1, clen = 2, alen = 1, uoff = 1, ulen = 2,
         coveredBitsSoFar = bits ''110000''\<rparr> ErrInvalidSignature)
        = Some ([Some (att ''110000'' [3])]
                @ [Some (att ''001000'' [9]), Some (att ''000100'' [4])])"
proof (intro conjI)
  let ?A = "Some [att ''1100'' [1], att ''0011'' [2], att ''1000'' [9], att ''0100'' [4]]"
  let ?rA = "\<lparr>returned = Some [att ''1111'' [3], att ''1000'' [9], att ''0100'' [4]],
              err = Some ErrInvalidSignature,
              caller = [att ''1000'' [9], att ''0100'' [4], att ''1000'' [9], att ''0100'' [4]]\<rparr>"
  have l: "\<not> len ?A < 2" by (simp add: len_def)
  have v: "validate ?A = None" by code_simp
  have m: "MaxCoverAttestationAggregation (decodeExcept [9]) encodeSum ?A = Some ?rA"
    by code_simp
  have e: "err ?rA \<noteq> None" by simp
  from error_returns_materialized_aggregates [OF l v, of "decodeExcept [9]" encodeSum] m e
  have "\<exists>st. reaches (aggregationRound (decodeExcept [9]) encodeSum (len ?A))
            \<lparr>aggregated = [], unaggregated = elems ?A, atts = elems ?A\<rparr> st
        \<and> aggregationRound (decodeExcept [9]) encodeSum (len ?A) st = Return ?rA
        \<and> returned ?rA = Some (aggregated st @ unaggregated st)
        \<and> coverage (aggregated st @ unaggregated st) = coverage (elems ?A)"
    by blast
  then show "\<exists>st. reaches (aggregationRound (decodeExcept [9]) encodeSum 4)
            \<lparr>aggregated = [],
             unaggregated = [att ''1100'' [1], att ''0011'' [2], att ''1000'' [9], att ''0100'' [4]],
             atts = [att ''1100'' [1], att ''0011'' [2], att ''1000'' [9], att ''0100'' [4]]\<rparr> st
        \<and> aggregationRound (decodeExcept [9]) encodeSum 4 st = Return ?rA
        \<and> Some [att ''1111'' [3], att ''1000'' [9], att ''0100'' [4]]
            = Some (aggregated st @ unaggregated st)
        \<and> coverage (aggregated st @ unaggregated st)
            = coverage [att ''1100'' [1], att ''0011'' [2], att ''1000'' [9], att ''0100'' [4]]"
    by (simp add: len_def elems_def eval_nat_numeral)
next
  let ?xs = "[att ''1100'' [1], att ''0011'' [2], att ''1000'' [9], att ''0100'' [4]]"
  let ?init = "\<lparr>aggregated = [], unaggregated = ?xs, atts = ?xs\<rparr>"
  let ?next = "\<lparr>aggregated = [att ''1111'' [3]],
                unaggregated = [att ''1000'' [9], att ''0100'' [4]],
                atts = [att ''1000'' [9], att ''0100'' [4], att ''1000'' [9],
                        att ''0100'' [4]]\<rparr>"
  have l: "\<not> len (Some ?xs) < 2" by (simp add: len_def)
  have v: "validate (Some ?xs) = None" by code_simp
  have round: "aggregationRound (decodeExcept [9]) encodeSum (len (Some ?xs)) ?init
                 = Continue ?next"
    by code_simp
  from error_returns_materialized_aggregates [OF l v, of "decodeExcept [9]" encodeSum] round
  have "aggregated ?next = aggregated ?init
       \<or> (\<exists>solution selected a.
             Cover (NewMaxCover (unaggregated ?init)) (len (Some ?xs)) = Inr solution
             \<and> selectUsingKeys (unaggregated ?init) (Keys solution) = Some selected
             \<and> aggregate (decodeExcept [9]) encodeSum selected (Coverage solution) = Inr a
             \<and> aggregated ?next = aggregated ?init @ [a])"
    by blast
  then show "\<exists>solution selected a.
         Cover (NewMaxCover ?xs) 4 = Inr solution
         \<and> selectUsingKeys ?xs (Keys solution) = Some selected
         \<and> aggregate (decodeExcept [9]) encodeSum selected (Coverage solution) = Inr a
         \<and> [att ''1111'' [3]] = [a]"
    by (simp add: len_def eval_nat_numeral)
next
  let ?B = "Some [att ''1100'' [9], att ''0011'' [2]]"
  let ?rB = "\<lparr>returned = Some [Some (att ''1100'' [9]), Some (att ''0011'' [2])],
              err = Some ErrInvalidSignature,
              caller = [Some (att ''1100'' [9]), Some (att ''0011'' [2])]\<rparr>"
  have l: "\<not> len ?B < 2" by (simp add: len_def)
  have v: "validate ?B = None" by code_simp
  have m: "optMaxCoverAttestationAggregation (decodeExcept [9]) encodeSum ?B = Some ?rB"
    by code_simp
  have e: "err ?rB \<noteq> None" by simp
  from error_returns_materialized_aggregates [OF l v, of "decodeExcept [9]" encodeSum] m e
  have "optRound (decodeExcept [9]) encodeSum
            \<lparr>oatts = map Some (elems ?B),
             cands = map (\<lambda>a. Some (AggregationBits a)) (elems ?B),
             coff = 0, clen = len ?B, alen = 0, uoff = 0, ulen = len ?B,
             coveredBitsSoFar = NewBitlist64
               (Len (the (map (\<lambda>a. Some (AggregationBits a)) (elems ?B) ! 0)))\<rparr>
          = Return ?rB"
    by blast
  then show "optRound (decodeExcept [9]) encodeSum
        \<lparr>oatts = [Some (att ''1100'' [9]), Some (att ''0011'' [2])],
         cands = [Some (bits ''1100''), Some (bits ''0011'')],
         coff = 0, clen = 2, alen = 0, uoff = 0, ulen = 2,
         coveredBitsSoFar = bits ''0000''\<rparr> = Return ?rB"
    by (simp add: len_def elems_def att_def bits_def NewBitlist64_def Len_def eval_nat_numeral)
next
  let ?B = "Some [att ''1100'' [9], att ''0011'' [2]]"
  let ?st = "\<lparr>oatts = [Some (att ''110000'' [3]), Some (att ''001000'' [9]),
                       Some (att ''000100'' [4])],
              cands = [Some (bits ''110000''), Some (bits ''001000''), Some (bits ''000100'')],
              coff = 1, clen = 2, alen = 1, uoff = 1, ulen = 2,
              coveredBitsSoFar = bits ''110000''\<rparr>"
  have l: "\<not> len ?B < 2" by (simp add: len_def)
  have v: "validate ?B = None" by code_simp
  have m: "optRound (decodeExcept [9]) encodeSum ?st
             = Return (optFailed ?st ErrInvalidSignature)"
    by code_simp
  from error_returns_materialized_aggregates [OF l v, of "decodeExcept [9]" encodeSum] m
  have "returned (optFailed ?st ErrInvalidSignature)
          = Some (slice 0 (alen ?st) (oatts ?st) @ slice (uoff ?st) (ulen ?st) (oatts ?st))"
    by blast
  then show "returned (optFailed ?st ErrInvalidSignature)
        = Some ([Some (att ''110000'' [3])]
                @ [Some (att ''001000'' [9]), Some (att ''000100'' [4])])"
    by (simp add: slice_def)
qed

end
